theory Spec2Isabelle
  imports Main
begin

section \<open>Workflow manager (mcp-server/src/managers/workflow.ts)\<close>

text \<open>
  The manager keeps one \<open>WorkflowState\<close> per session id in an in-memory map. Its methods
  mutate the state found there; the model passes the manager state explicitly and returns
  the updated one. A method that throws returns \<open>Inl\<close> of the message next to the state
  it leaves behind, because every mutation made before the throw stays. \<open>new Date()\<close> is
  the parameter \<open>now\<close>: the source stores timestamps and never compares them. An awaited
  call to another service or to the store is an \<open>outcome\<close> supplied by the environment:
  it rejects with a message or resolves with a value. A call of \<open>saveWorkflowState\<close> that
  is not awaited changes nothing in the manager and is left out. The two status queries
  (\<open>getWorkflowStatus\<close>, \<open>getDevelopmentStatus\<close>) write no field of a workflow held in
  memory and are left out as well.
\<close>

datatype ResearchStage =
  INITIAL | CLARIFICATION | RESEARCH | DEVELOPMENT | TESTING | DOCUMENTATION | COMPLETED

datatype StageStatus = pending | in_progress | completed | failed

datatype 'a outcome = Rejected string | Resolved 'a

record StageProgress =
  sp_stage :: ResearchStage
  sp_status :: StageStatus
  sp_startTime :: "nat option"
  sp_endTime :: "nat option"
  sp_progress :: int
  sp_details :: "string \<rightharpoonup> string"

record WorkflowError =
  we_stage :: ResearchStage
  we_error :: string
  we_timestamp :: nat
  we_retryCount :: int

record WorkflowMetadata =
  md_topic :: string
  md_clarifications :: "string list"
  md_projectId :: "string option"

record WorkflowState =
  sessionId :: string
  currentStage :: ResearchStage
  stages :: "StageProgress list"
  startTime :: nat
  lastUpdateTime :: nat
  errors :: "WorkflowError list"
  metadata :: WorkflowMetadata

record ProgressEvent =
  ev_sessionId :: string
  ev_stage :: ResearchStage
  ev_status :: StageStatus
  ev_progress :: int

record WorkflowManager =
  workflows :: "string \<rightharpoonup> WorkflowState"
  emitted :: "ProgressEvent list"
  crawl_listeners :: "string list"

text \<open>The order of the enumeration, as \<open>Object.values(ResearchStage)\<close> lists it.\<close>

definition all_stages :: "ResearchStage list" where
  "all_stages = [INITIAL, CLARIFICATION, RESEARCH, DEVELOPMENT, TESTING, DOCUMENTATION, COMPLETED]"


definition initializeStages :: "StageProgress list" where
  "initializeStages =
     map (\<lambda>s. \<lparr>sp_stage = s, sp_status = pending, sp_startTime = None, sp_endTime = None,
                sp_progress = 0, sp_details = Map.empty\<rparr>) all_stages"

text \<open>
  \<open>Array.prototype.find\<close> hands out a reference to the first matching element and the
  caller assigns to its fields: the first matching element of the list is replaced.
\<close>

fun update_first :: "('a \<Rightarrow> bool) \<Rightarrow> ('a \<Rightarrow> 'a) \<Rightarrow> 'a list \<Rightarrow> 'a list" where
  "update_first P f [] = []"
| "update_first P f (x # xs) = (if P x then f x # xs else x # update_first P f xs)"

definition stamp_stage ::
  "StageStatus \<Rightarrow> int \<Rightarrow> (string \<rightharpoonup> string) option \<Rightarrow> nat \<Rightarrow> StageProgress \<Rightarrow> StageProgress" where
  "stamp_stage st p det now sp =
     (let sp1 = sp\<lparr>sp_status := st, sp_progress := p\<rparr>;
          sp2 = (case det of None \<Rightarrow> sp1 | Some d \<Rightarrow> sp1\<lparr>sp_details := sp_details sp1 ++ d\<rparr>);
          sp3 = (if st = in_progress \<and> sp_startTime sp2 = None
                 then sp2\<lparr>sp_startTime := Some now\<rparr> else sp2)
      in if st = completed \<or> st = failed then sp3\<lparr>sp_endTime := Some now\<rparr> else sp3)"

definition updateStageProgress ::
  "WorkflowManager \<Rightarrow> string \<Rightarrow> ResearchStage \<Rightarrow> StageStatus \<Rightarrow> int \<Rightarrow>
   (string \<rightharpoonup> string) option \<Rightarrow> nat \<Rightarrow> WorkflowManager" where
  "updateStageProgress m sid stg st p det now =
     (case workflows m sid of
        None \<Rightarrow> m
      | Some w \<Rightarrow>
          m\<lparr>workflows := (workflows m)(sid \<mapsto>
               w\<lparr>stages := update_first (\<lambda>s. sp_stage s = stg) (stamp_stage st p det now) (stages w),
                 lastUpdateTime := now\<rparr>),
            emitted := emitted m @
               [\<lparr>ev_sessionId = sid, ev_stage = stg, ev_status = st, ev_progress = p\<rparr>]\<rparr>)"

definition getStageProgress :: "WorkflowManager \<Rightarrow> string \<Rightarrow> ResearchStage \<Rightarrow> int" where
  "getStageProgress m sid stg =
     (case workflows m sid of
        None \<Rightarrow> 0
      | Some w \<Rightarrow> (case find (\<lambda>s. sp_stage s = stg) (stages w) of
                     None \<Rightarrow> 0 | Some sp \<Rightarrow> sp_progress sp))"

definition bump_error :: "string \<Rightarrow> nat \<Rightarrow> WorkflowError \<Rightarrow> WorkflowError" where
  "bump_error msg now e =
     e\<lparr>we_retryCount := we_retryCount e + 1, we_error := msg, we_timestamp := now\<rparr>"

definition record_in :: "ResearchStage \<Rightarrow> string \<Rightarrow> nat \<Rightarrow> WorkflowError list \<Rightarrow> WorkflowError list" where
  "record_in stg msg now es =
     (case find (\<lambda>e. we_stage e = stg) es of
        Some _ \<Rightarrow> update_first (\<lambda>e. we_stage e = stg) (bump_error msg now) es
      | None \<Rightarrow> es @ [\<lparr>we_stage = stg, we_error = msg, we_timestamp = now, we_retryCount = 0\<rparr>])"

definition recordError ::
  "WorkflowManager \<Rightarrow> string \<Rightarrow> ResearchStage \<Rightarrow> string \<Rightarrow> nat \<Rightarrow> WorkflowManager" where
  "recordError m sid stg msg now =
     (case workflows m sid of
        None \<Rightarrow> m
      | Some w \<Rightarrow>
          updateStageProgress
            (m\<lparr>workflows := (workflows m)(sid \<mapsto> w\<lparr>errors := record_in stg msg now (errors w)\<rparr>)\<rparr>)
            sid stg failed 0 None now)"

text \<open>The error entries of a session, and those of them recorded for one stage.\<close>

definition errors_of :: "WorkflowManager \<Rightarrow> string \<Rightarrow> WorkflowError list" where
  "errors_of m sid = (case workflows m sid of None \<Rightarrow> [] | Some w \<Rightarrow> errors w)"

definition entries_for :: "ResearchStage \<Rightarrow> WorkflowError list \<Rightarrow> WorkflowError list" where
  "entries_for stg es = filter (\<lambda>e. we_stage e = stg) es"


subsection \<open>The operations\<close>

record TestResults =
  tr_failed :: "int option"
  tr_report :: string

record ResearchPlan =
  rp_id :: string
  rp_topic :: string
  rp_objectives :: "string list"
  rp_timeline :: string
  rp_keyPapers :: "string list"

datatype DocFormat = pdf | latex | pptx

record DocumentGenerationOptions =
  dg_format :: "DocFormat option"
  dg_template :: string

record Document =
  doc_type :: string
  doc_format :: DocFormat
  doc_data :: string

definition set_currentStage :: "WorkflowManager \<Rightarrow> string \<Rightarrow> ResearchStage \<Rightarrow> WorkflowManager" where
  "set_currentStage m sid stg =
     (case workflows m sid of
        None \<Rightarrow> m
      | Some w \<Rightarrow> m\<lparr>workflows := (workflows m)(sid \<mapsto> w\<lparr>currentStage := stg\<rparr>)\<rparr>)"

definition set_projectId :: "WorkflowManager \<Rightarrow> string \<Rightarrow> string \<Rightarrow> WorkflowManager" where
  "set_projectId m sid pid =
     (case workflows m sid of
        None \<Rightarrow> m
      | Some w \<Rightarrow>
          m\<lparr>workflows := (workflows m)(sid \<mapsto>
               w\<lparr>metadata := (metadata w)\<lparr>md_projectId := Some pid\<rparr>\<rparr>)\<rparr>)"

text \<open>Decimal text of a number, as a template literal prints an integer.\<close>

definition digit_char :: "nat \<Rightarrow> char" where
  "digit_char d =
     (if d = 0 then CHR ''0'' else if d = 1 then CHR ''1'' else if d = 2 then CHR ''2''
      else if d = 3 then CHR ''3'' else if d = 4 then CHR ''4'' else if d = 5 then CHR ''5''
      else if d = 6 then CHR ''6'' else if d = 7 then CHR ''7'' else if d = 8 then CHR ''8''
      else CHR ''9'')"

function show_nat :: "nat \<Rightarrow> string" where
  "show_nat n = (if n < 10 then [digit_char n] else show_nat (n div 10) @ [digit_char (n mod 10)])"
  by pat_completeness auto
termination
  by (relation "measure (\<lambda>n. n)") auto

declare show_nat.simps [simp del]

definition show_int :: "int \<Rightarrow> string" where
  "show_int i = (if i < 0 then CHR ''-'' # show_nat (nat (- i)) else show_nat (nat i))"

text \<open>
  \<open>createResearchPlan\<close> registers a new workflow under \<open>session_<Date.now()>\<close>, already at
  the research stage.
\<close>

record plan_env =
  pe_saved :: "unit outcome"
  pe_plan :: "ResearchPlan outcome"

definition new_workflow :: "string \<Rightarrow> string list \<Rightarrow> nat \<Rightarrow> WorkflowState" where
  "new_workflow topic clarifications now =
     \<lparr>sessionId = ''session_'' @ show_nat now, currentStage = RESEARCH, stages = initializeStages,
      startTime = now, lastUpdateTime = now, errors = [],
      metadata = \<lparr>md_topic = topic, md_clarifications = clarifications, md_projectId = None\<rparr>\<rparr>"

definition createResearchPlan ::
  "WorkflowManager \<Rightarrow> string \<Rightarrow> string list \<Rightarrow> plan_env \<Rightarrow> nat \<Rightarrow>
   WorkflowManager \<times> (string + ResearchPlan)" where
  "createResearchPlan m topic clarifications env now =
     (let w = new_workflow topic clarifications now;
          sid = sessionId w;
          m1 = m\<lparr>workflows := (workflows m)(sid \<mapsto> w)\<rparr>
      in case pe_saved env of
           Rejected e \<Rightarrow> (m1, Inl e)
         | Resolved _ \<Rightarrow>
             (let m2 = updateStageProgress m1 sid RESEARCH in_progress 10 None now
              in case pe_plan env of
                   Rejected e \<Rightarrow> (m2, Inl e)
                 | Resolved plan \<Rightarrow>
                     (updateStageProgress m2 sid RESEARCH in_progress 30 None now, Inr plan)))"

text \<open>
  \<open>executeResearch\<close> subscribes a listener for its session to the orchestrator's
  \<open>crawl:progress\<close> event and never unsubscribes it, so \<open>crawl_listeners\<close> holds one
  session id per call made so far. \<open>re_crawled\<close> is the number of sources the orchestrator
  reports while it runs; each report runs every listener, and a listener moves the research
  stage of its session ten points up, to at most 90.
\<close>

record research_env =
  re_crawled :: nat
  re_result :: "string outcome"

definition on_crawl_progress :: "nat \<Rightarrow> WorkflowManager \<Rightarrow> string \<Rightarrow> WorkflowManager" where
  "on_crawl_progress now m sid =
     updateStageProgress m sid RESEARCH in_progress
       (min (getStageProgress m sid RESEARCH + 10) 90) None now"

definition crawl_progress_event :: "nat \<Rightarrow> WorkflowManager \<Rightarrow> WorkflowManager" where
  "crawl_progress_event now m = foldl (on_crawl_progress now) m (crawl_listeners m)"

definition executeResearch ::
  "WorkflowManager \<Rightarrow> string \<Rightarrow> research_env \<Rightarrow> nat \<Rightarrow> WorkflowManager \<times> (string + string)" where
  "executeResearch m sid env now =
     (case workflows m sid of
        None \<Rightarrow> (m, Inl ''Workflow not found'')
      | Some _ \<Rightarrow>
          (let m0 = m\<lparr>crawl_listeners := crawl_listeners m @ [sid]\<rparr>;
               m1 = (crawl_progress_event now ^^ re_crawled env) m0
           in case re_result env of
                Resolved r \<Rightarrow> (updateStageProgress m1 sid RESEARCH completed 100 None now, Inr r)
              | Rejected e \<Rightarrow> (recordError m1 sid RESEARCH e now, Inl e)))"

definition refineResearch ::
  "WorkflowManager \<Rightarrow> string \<Rightarrow> unit outcome \<Rightarrow> nat \<Rightarrow> WorkflowManager \<times> (string + unit)" where
  "refineResearch m sid refined now =
     (case workflows m sid of
        None \<Rightarrow> (m, Inl ''Workflow not found'')
      | Some _ \<Rightarrow>
          (let m1 = updateStageProgress m sid RESEARCH in_progress 50 None now
           in case refined of
                Resolved _ \<Rightarrow> (updateStageProgress m1 sid RESEARCH completed 100 None now, Inr ())
              | Rejected e \<Rightarrow> (recordError m1 sid RESEARCH e now, Inl e)))"

text \<open>
  \<open>runTestsWithRetry\<close>: up to \<open>maxRetries\<close> test runs; a run that reports no failed test
  ends the loop, a run that throws is remembered, and after the last attempt the remembered
  error (or a fixed message when no run threw) is thrown.
\<close>

function runTestsWithRetry_from ::
  "(nat \<Rightarrow> TestResults outcome) \<Rightarrow> nat \<Rightarrow> nat \<Rightarrow> string option \<Rightarrow> string + TestResults" where
  "runTestsWithRetry_from runs maxRetries attempt lastError =
     (if attempt < maxRetries then
        (case runs attempt of
           Resolved r \<Rightarrow>
             if tr_failed r = Some 0 then Inr r
             else runTestsWithRetry_from runs maxRetries (attempt + 1) lastError
         | Rejected e \<Rightarrow> runTestsWithRetry_from runs maxRetries (attempt + 1) (Some e))
      else Inl (case lastError of Some e \<Rightarrow> e | None \<Rightarrow> ''Tests failed after retries''))"
  by pat_completeness auto
termination
  by (relation "measure (\<lambda>(runs, maxRetries, attempt, lastError). maxRetries - attempt)") auto

declare runTestsWithRetry_from.simps [simp del]

definition runTestsWithRetry :: "(nat \<Rightarrow> TestResults outcome) \<Rightarrow> string + TestResults" where
  "runTestsWithRetry runs = runTestsWithRetry_from runs 3 0 None"

text \<open>
  What \<open>startDevelopment\<close> awaits, in the order of the source: reading
  \<open>research:results:<id>\<close> from the store (there may be no value); parsing it and
  reading the fields the project request needs, which throws on a malformed value; the
  request that creates the project and returns its id; the request that generates the code;
  the test runs of \<open>runTestsWithRetry\<close>; and saving the workflow.
\<close>

record dev_env =
  de_research_data :: "string option outcome"
  de_research_parsed :: "unit outcome"
  de_project :: "string outcome"
  de_code :: "unit outcome"
  de_test_runs :: "nat \<Rightarrow> TestResults outcome"
  de_saved :: "unit outcome"

text \<open>
  The \<open>try\<close> block of \<open>startDevelopment\<close>: the first awaited call that fails ends it with
  the message, and the state keeps what was written before.
\<close>

definition startDevelopment_try ::
  "WorkflowManager \<Rightarrow> string \<Rightarrow> dev_env \<Rightarrow> nat \<Rightarrow> WorkflowManager \<times> (string + unit)" where
  "startDevelopment_try m sid env now =
     (case de_research_data env of
        Rejected e \<Rightarrow> (m, Inl e)
      | Resolved None \<Rightarrow> (m, Inl ''Research results not found'')
      | Resolved (Some txt) \<Rightarrow>
          if txt = [] then (m, Inl ''Research results not found'')
          else (case de_research_parsed env of
                  Rejected e \<Rightarrow> (m, Inl e)
                | Resolved _ \<Rightarrow>
                   (case de_project env of
                      Rejected e \<Rightarrow> (m, Inl e)
                    | Resolved pid \<Rightarrow>
                       (let m1 = set_projectId m sid pid;
                            m2 = updateStageProgress m1 sid DEVELOPMENT in_progress 20 None now
                        in case de_code env of
                             Rejected e \<Rightarrow> (m2, Inl e)
                           | Resolved _ \<Rightarrow>
                              (let m3 = updateStageProgress m2 sid DEVELOPMENT in_progress 60 None now
                               in case runTestsWithRetry (de_test_runs env) of
                                    Inl e \<Rightarrow> (m3, Inl e)
                                  | Inr _ \<Rightarrow>
                                     (let m4 = updateStageProgress m3 sid DEVELOPMENT completed 100 None now;
                                          m5 = set_currentStage m4 sid TESTING
                                      in case de_saved env of
                                           Rejected e \<Rightarrow> (m5, Inl e)
                                         | Resolved _ \<Rightarrow> (m5, Inr ())))))))"

definition startDevelopment ::
  "WorkflowManager \<Rightarrow> string \<Rightarrow> dev_env \<Rightarrow> nat \<Rightarrow> WorkflowManager \<times> (string + unit)" where
  "startDevelopment m sid env now =
     (case workflows m sid of
        None \<Rightarrow> (m, Inl ''Workflow not found'')
      | Some _ \<Rightarrow>
          (let m1 = updateStageProgress (set_currentStage m sid DEVELOPMENT) sid
                      DEVELOPMENT in_progress 10 None now
           in case startDevelopment_try m1 sid env now of
                (m2, Inl e) \<Rightarrow> (recordError m2 sid DEVELOPMENT e now, Inl e)
              | (m2, Inr u) \<Rightarrow> (m2, Inr u)))"

text \<open>
  What \<open>runTests\<close> awaits inside its \<open>try\<close> block: the test request, then writing the
  result to the store under \<open>test:results:<id>\<close>. A missing project id is \<open>undefined\<close>
  or the empty string.
\<close>

record test_env =
  te_run :: "TestResults outcome"
  te_saved :: "unit outcome"

definition runTests ::
  "WorkflowManager \<Rightarrow> string \<Rightarrow> test_env \<Rightarrow> nat \<Rightarrow> WorkflowManager \<times> (string + TestResults)" where
  "runTests m sid env now =
     (case workflows m sid of
        None \<Rightarrow> (m, Inl ''Workflow not found'')
      | Some w \<Rightarrow>
          if md_projectId (metadata w) = None \<or> md_projectId (metadata w) = Some []
          then (m, Inl ''Project ID not found'')
          else
            (let m1 = updateStageProgress m sid TESTING in_progress 10 None now
             in case te_run env of
                  Rejected e \<Rightarrow> (recordError m1 sid TESTING e now, Inl e)
                | Resolved testResults \<Rightarrow>
                   (case te_saved env of
                      Rejected e \<Rightarrow> (recordError m1 sid TESTING e now, Inl e)
                    | Resolved _ \<Rightarrow>
                       (updateStageProgress m1 sid TESTING completed
                          (if tr_failed testResults = Some 0 then 100 else 80) None now,
                        Inr testResults))))"

record doc_env =
  dn_report :: "string outcome"
  dn_paper :: "string outcome"
  dn_presentation :: "string outcome"
  dn_saved :: "unit outcome"

text \<open>
  The \<open>try\<close> block of \<open>generateDocuments\<close>: one request per requested format (all three
  when no format is given), each followed by a progress update.
\<close>

definition generateDocuments_try ::
  "WorkflowManager \<Rightarrow> string \<Rightarrow> DocumentGenerationOptions \<Rightarrow> doc_env \<Rightarrow> nat \<Rightarrow>
   WorkflowManager \<times> (string + Document list)" where
  "generateDocuments_try m sid options env now =
     (let wanted = (\<lambda>f. dg_format options = Some f \<or> dg_format options = None);
          step1 =
            (if wanted pdf then
               (case dn_report env of
                  Rejected e \<Rightarrow> (m, Inl e)
                | Resolved d \<Rightarrow>
                    (updateStageProgress m sid DOCUMENTATION in_progress 30 None now,
                     Inr [\<lparr>doc_type = ''report'', doc_format = pdf, doc_data = d\<rparr>]))
             else (m, Inr []))
      in case step1 of
           (m1, Inl e) \<Rightarrow> (m1, Inl e)
         | (m1, Inr docs1) \<Rightarrow>
            (let step2 =
               (if wanted latex then
                  (case dn_paper env of
                     Rejected e \<Rightarrow> (m1, Inl e)
                   | Resolved d \<Rightarrow>
                       (updateStageProgress m1 sid DOCUMENTATION in_progress 60 None now,
                        Inr (docs1 @ [\<lparr>doc_type = ''paper'', doc_format = latex, doc_data = d\<rparr>])))
                else (m1, Inr docs1))
             in case step2 of
                  (m2, Inl e) \<Rightarrow> (m2, Inl e)
                | (m2, Inr docs2) \<Rightarrow>
                   (let step3 =
                      (if wanted pptx then
                         (case dn_presentation env of
                            Rejected e \<Rightarrow> (m2, Inl e)
                          | Resolved d \<Rightarrow>
                              (updateStageProgress m2 sid DOCUMENTATION in_progress 90 None now,
                               Inr (docs2 @
                                 [\<lparr>doc_type = ''presentation'', doc_format = pptx, doc_data = d\<rparr>])))
                       else (m2, Inr docs2))
                    in case step3 of
                         (m3, Inl e) \<Rightarrow> (m3, Inl e)
                       | (m3, Inr docs3) \<Rightarrow>
                          (let m4 = updateStageProgress m3 sid DOCUMENTATION completed 100 None now;
                               m5 = set_currentStage m4 sid COMPLETED
                           in case dn_saved env of
                                Rejected e \<Rightarrow> (m5, Inl e)
                              | Resolved _ \<Rightarrow> (m5, Inr docs3)))))"

definition generateDocuments ::
  "WorkflowManager \<Rightarrow> string \<Rightarrow> DocumentGenerationOptions \<Rightarrow> doc_env \<Rightarrow> nat \<Rightarrow>
   WorkflowManager \<times> (string + Document list)" where
  "generateDocuments m sid options env now =
     (case workflows m sid of
        None \<Rightarrow> (m, Inl ''Workflow not found'')
      | Some _ \<Rightarrow>
          (let m1 = updateStageProgress (set_currentStage m sid DOCUMENTATION) sid
                      DOCUMENTATION in_progress 10 None now
           in case generateDocuments_try m1 sid options env now of
                (m2, Inl e) \<Rightarrow> (recordError m2 sid DOCUMENTATION e now, Inl e)
              | (m2, Inr docs) \<Rightarrow> (m2, Inr docs)))"

subsection \<open>Sequences of operations\<close>

datatype wf_call =
  CreateResearchPlan string "string list" plan_env
| ExecuteResearch string research_env
| RefineResearch string "unit outcome"
| StartDevelopment string dev_env
| RunTests string test_env
| GenerateDocuments string DocumentGenerationOptions doc_env

text \<open>
  One call of a public method at time \<open>now\<close>. The caller's result is dropped; the manager
  state is kept whether the method returned or threw.
\<close>

fun apply_call :: "WorkflowManager \<Rightarrow> wf_call \<times> nat \<Rightarrow> WorkflowManager" where
  "apply_call m (CreateResearchPlan topic clarifications env, now) =
     fst (createResearchPlan m topic clarifications env now)"
| "apply_call m (ExecuteResearch sid env, now) = fst (executeResearch m sid env now)"
| "apply_call m (RefineResearch sid refined, now) = fst (refineResearch m sid refined now)"
| "apply_call m (StartDevelopment sid env, now) = fst (startDevelopment m sid env now)"
| "apply_call m (RunTests sid env, now) = fst (runTests m sid env now)"
| "apply_call m (GenerateDocuments sid options env, now) =
     fst (generateDocuments m sid options env now)"

definition run_calls :: "WorkflowManager \<Rightarrow> (wf_call \<times> nat) list \<Rightarrow> WorkflowManager" where
  "run_calls m cs = foldl apply_call m cs"

definition empty_manager :: WorkflowManager where
  "empty_manager = \<lparr>workflows = Map.empty, emitted = [], crawl_listeners = []\<rparr>"

definition stage_of :: "WorkflowManager \<Rightarrow> string \<Rightarrow> ResearchStage option" where
  "stage_of m sid = map_option currentStage (workflows m sid)"

definition stage_record :: "WorkflowManager \<Rightarrow> string \<Rightarrow> ResearchStage \<Rightarrow> StageProgress option" where
  "stage_record m sid stg =
     (case workflows m sid of
        None \<Rightarrow> None
      | Some w \<Rightarrow> find (\<lambda>s. sp_stage s = stg) (stages w))"

definition has_workflow :: "WorkflowManager \<Rightarrow> string \<Rightarrow> bool" where
  "has_workflow m sid = (case workflows m sid of None \<Rightarrow> False | Some _ \<Rightarrow> True)"




text \<open>No session holds two error entries for one stage.\<close>

definition errors_distinct :: "WorkflowManager \<Rightarrow> bool" where
  "errors_distinct m \<longleftrightarrow> (\<forall>sid. distinct (map we_stage (errors_of m sid)))"



definition has_stage :: "WorkflowManager \<Rightarrow> string \<Rightarrow> ResearchStage \<Rightarrow> bool" where
  "has_stage m sid stg = (case stage_record m sid stg of None \<Rightarrow> False | Some _ \<Rightarrow> True)"

definition projectId_of :: "WorkflowManager \<Rightarrow> string \<Rightarrow> string option" where
  "projectId_of m sid =
     (case workflows m sid of None \<Rightarrow> None | Some w \<Rightarrow> md_projectId (metadata w))"

definition status_of :: "WorkflowManager \<Rightarrow> string \<Rightarrow> ResearchStage \<Rightarrow> StageStatus option" where
  "status_of m sid stg = map_option sp_status (stage_record m sid stg)"

definition progress_of :: "WorkflowManager \<Rightarrow> string \<Rightarrow> ResearchStage \<Rightarrow> int option" where
  "progress_of m sid stg = map_option sp_progress (stage_record m sid stg)"


subsection \<open>Sample runs\<close>

text \<open>
  A session created at time 5 (so its workflow is \<open>session_5\<close>), with environments in
  which every awaited call succeeds, and some in which one of them fails.
\<close>

definition sample_plan_env :: plan_env where
  "sample_plan_env =
     \<lparr>pe_saved = Resolved (),
      pe_plan = Resolved \<lparr>rp_id = ''plan_5'', rp_topic = ''edge caching'', rp_objectives = [],
                          rp_timeline = ''30 days'', rp_keyPapers = []\<rparr>\<rparr>"

definition sample_research_env :: research_env where
  "sample_research_env = \<lparr>re_crawled = 4, re_result = Resolved ''synthesis''\<rparr>"

definition sample_dev_env :: dev_env where
  "sample_dev_env =
     \<lparr>de_research_data = Resolved (Some ''{...}''), de_research_parsed = Resolved (),
      de_project = Resolved ''p1'', de_code = Resolved (),
      de_test_runs = (\<lambda>_. Resolved \<lparr>tr_failed = Some 0, tr_report = ''ok''\<rparr>),
      de_saved = Resolved ()\<rparr>"


definition sample_test_env :: test_env where
  "sample_test_env =
     \<lparr>te_run = Resolved \<lparr>tr_failed = Some 2, tr_report = ''2 failed''\<rparr>, te_saved = Resolved ()\<rparr>"

definition sample_test_env_unsaved :: test_env where
  "sample_test_env_unsaved = sample_test_env\<lparr>te_saved := Rejected ''Connection is closed.''\<rparr>"



definition sample_created :: WorkflowManager where
  "sample_created = run_calls empty_manager [(CreateResearchPlan ''edge caching'' [] sample_plan_env, 5)]"

definition sample_researched :: WorkflowManager where
  "sample_researched = apply_call sample_created (ExecuteResearch ''session_5'' sample_research_env, 6)"

definition sample_developed :: WorkflowManager where
  "sample_developed = apply_call sample_researched (StartDevelopment ''session_5'' sample_dev_env, 7)"


section \<open>Generation broker (mcp-server/src/services/ollama.ts)\<close>

subsection \<open>Retry and backoff\<close>

text \<open>
  \<open>performGeneration\<close> posts the chat request up to \<open>maxRetries\<close> times
  (\<open>this.config.maxRetries || 3\<close>: an absent or zero setting means 3). After a failed
  attempt that is not the last one the loop awaits \<open>this.delay(Math.pow(2, attempt) * 1000)\<close>,
  a promise resolved by \<open>setTimeout\<close>. The timer of the runtime takes a delay of at most
  \<open>2^31 - 1\<close> milliseconds: a longer one (and one below 1) is set to 1 millisecond. When
  every attempt has failed the error thrown carries the number of attempts and the message
  of the last error.
\<close>

type_synonym response = string

definition effective_maxRetries :: "int option \<Rightarrow> int" where
  "effective_maxRetries configured =
     (case configured of None \<Rightarrow> 3 | Some n \<Rightarrow> if n = 0 then 3 else n)"

definition backoff_ms :: "nat \<Rightarrow> nat" where
  "backoff_ms attempt = 2 ^ attempt * 1000"

definition TIMEOUT_MAX :: nat where
  "TIMEOUT_MAX = 2147483647"

definition setTimeout_ms :: "nat \<Rightarrow> nat" where
  "setTimeout_ms ms = (if ms < 1 \<or> TIMEOUT_MAX < ms then 1 else ms)"

text \<open>The time after which the promise of \<open>delay(ms)\<close> resolves.\<close>

definition delay :: "nat \<Rightarrow> nat" where
  "delay ms = setTimeout_ms ms"

definition failure_message :: "int \<Rightarrow> string \<Rightarrow> string" where
  "failure_message maxRetries lastError =
     ''Generation failed after '' @ show_int maxRetries @ '' attempts: '' @ lastError"


subsection \<open>Deduplication and caching\<close>

text \<open>
  \<open>generate\<close> is asynchronous: it suspends at \<open>await redis.get\<close>, at
  \<open>await requestPromise\<close> and at \<open>await redis.set\<close>, and between two suspension points it runs
  without interruption on the single thread of the event loop. The model is a transition
  system whose events are these resumptions. A call is known by the cache key of its
  request (\<open>getCacheKey\<close> hashes messages, options and model name; the broker uses nothing
  else of the request). The store holds \<open>JSON.stringify(response)\<close> under the key, which
  \<open>JSON.parse\<close> turns back into the response, together with the time at which the entry
  expires. Times are milliseconds.

  A promise made by \<open>performGeneration\<close> is either waiting for the reply to the request of
  some attempt, or sleeping after a failed attempt (with the number of that attempt, its
  error and the time at which the timer fires), or settled. The loop of
  \<open>performGeneration\<close> is the cycle between the first two: a rejected request that was not
  the last one allowed starts the timer, the timer posts the request of the next attempt.
\<close>

datatype generation =
  Posting nat
| Sleeping nat string nat
| Fulfilled response
| Failed string

record request_promise =
  pm_key :: string
  pm_state :: generation

text \<open>
  Where a call of \<open>generate\<close> stands: waiting for the cache lookup; having made the promise
  \<open>p\<close> and waiting for it; waiting for the cache write; having returned the promise of
  another call; or finished, with a response or an error.
\<close>

datatype caller =
  CacheLookup string bool
| Awaiting nat string bool
| Storing nat string response
| Joined nat
| Returned response
| Thrown string

record broker =
  cacheEnabled :: bool
  maxRetries :: int
  redis :: "string \<rightharpoonup> response \<times> nat"
  activeRequests :: "string \<rightharpoonup> nat"
  promises :: "nat \<rightharpoonup> request_promise"
  next_promise :: nat
  callers :: "nat \<rightharpoonup> caller"
  posted :: "string list"
  clock :: nat

text \<open>
  The events: \<open>generate\<close> is called (\<open>Call\<close>, with the number of the call, the key and
  \<open>useCache\<close>); the cache lookup of a call is answered or fails; the backend answers the
  pending request of a promise, with a response or an error; the backoff timer of a promise
  fires; a call waiting for a settled promise resumes; the cache write of a call is answered
  or fails; time passes.
\<close>

datatype event =
  Call nat string bool
| CacheReply nat
| CacheError nat string
| BackendReply nat "response outcome"
| Wake nat
| Resume nat
| StoreReply nat
| StoreError nat string
| Tick nat

definition init_broker :: "bool \<Rightarrow> int option \<Rightarrow> (string \<rightharpoonup> response \<times> nat) \<Rightarrow> broker" where
  "init_broker enabled configured store =
     \<lparr>cacheEnabled = enabled, maxRetries = effective_maxRetries configured, redis = store,
      activeRequests = Map.empty, promises = Map.empty, next_promise = 0, callers = Map.empty,
      posted = [], clock = 0\<rparr>"

text \<open>
  The synchronous stretch of \<open>generate\<close> from the lookup in \<open>activeRequests\<close> to the
  \<open>await\<close> of the promise: an entry for the key is returned as it is; otherwise
  \<open>performGeneration\<close> is called, which posts the first request at once (or, with a negative
  \<open>maxRetries\<close>, fails without posting), and its promise is registered under the key.
\<close>

definition enter_dedup :: "broker \<Rightarrow> nat \<Rightarrow> string \<Rightarrow> bool \<Rightarrow> broker" where
  "enter_dedup b c key useCache =
     (case activeRequests b key of
        Some existingRequest \<Rightarrow> b\<lparr>callers := (callers b)(c \<mapsto> Joined existingRequest)\<rparr>
      | None \<Rightarrow>
          (let p = next_promise b
           in b\<lparr>promises := (promises b)(p \<mapsto>
                    \<lparr>pm_key = key,
                     pm_state = (if 0 < maxRetries b then Posting 0
                                 else Failed (failure_message (maxRetries b) ''No attempts made''))\<rparr>),
                next_promise := p + 1,
                posted := (if 0 < maxRetries b then posted b @ [key] else posted b),
                activeRequests := (activeRequests b)(key \<mapsto> p),
                callers := (callers b)(c \<mapsto> Awaiting p key useCache)\<rparr>))"

definition cache_hit :: "broker \<Rightarrow> string \<Rightarrow> response option" where
  "cache_hit b key =
     (case redis b key of
        None \<Rightarrow> None
      | Some (cached, expiry) \<Rightarrow> if clock b < expiry then Some cached else None)"

text \<open>The \<open>finally\<close> block: the entry of the key is deleted and the call ends.\<close>

definition finish :: "broker \<Rightarrow> nat \<Rightarrow> string \<Rightarrow> caller \<Rightarrow> broker" where
  "finish b c key ended =
     b\<lparr>activeRequests := (activeRequests b)(key := None), callers := (callers b)(c \<mapsto> ended)\<rparr>"

fun step :: "broker \<Rightarrow> event \<Rightarrow> broker option" where
  "step b (Call c key useCache) =
     (case callers b c of
        Some _ \<Rightarrow> None
      | None \<Rightarrow>
          if cacheEnabled b \<and> useCache
          then Some (b\<lparr>callers := (callers b)(c \<mapsto> CacheLookup key useCache)\<rparr>)
          else Some (enter_dedup b c key useCache))"
| "step b (CacheReply c) =
     (case callers b c of
        Some (CacheLookup key useCache) \<Rightarrow>
          (case cache_hit b key of
             Some cached \<Rightarrow> Some (b\<lparr>callers := (callers b)(c \<mapsto> Returned cached)\<rparr>)
           | None \<Rightarrow> Some (enter_dedup b c key useCache))
      | _ \<Rightarrow> None)"
| "step b (CacheError c e) =
     (case callers b c of
        Some (CacheLookup key useCache) \<Rightarrow> Some (b\<lparr>callers := (callers b)(c \<mapsto> Thrown e)\<rparr>)
      | _ \<Rightarrow> None)"
| "step b (BackendReply p reply) =
     (case promises b p of
        Some pm \<Rightarrow>
          (case pm_state pm of
             Posting attempt \<Rightarrow>
               Some (b\<lparr>promises := (promises b)(p \<mapsto> pm\<lparr>pm_state :=
                  (case reply of
                     Resolved r \<Rightarrow> Fulfilled r
                   | Rejected e \<Rightarrow>
                       if int attempt < maxRetries b - 1
                       then Sleeping attempt e (clock b + delay (backoff_ms attempt))
                       else Failed (failure_message (maxRetries b) e))\<rparr>)\<rparr>)
           | _ \<Rightarrow> None)
      | None \<Rightarrow> None)"
| "step b (Wake p) =
     (case promises b p of
        Some pm \<Rightarrow>
          (case pm_state pm of
             Sleeping attempt e until \<Rightarrow>
               if until \<le> clock b
               then Some (b\<lparr>promises := (promises b)(p \<mapsto> pm\<lparr>pm_state := Posting (attempt + 1)\<rparr>),
                           posted := posted b @ [pm_key pm]\<rparr>)
               else None
           | _ \<Rightarrow> None)
      | None \<Rightarrow> None)"
| "step b (Resume c) =
     (case callers b c of
        Some (Awaiting p key useCache) \<Rightarrow>
          (case map_option pm_state (promises b p) of
             Some (Fulfilled response) \<Rightarrow>
               if cacheEnabled b \<and> useCache
               then Some (b\<lparr>callers := (callers b)(c \<mapsto> Storing p key response)\<rparr>)
               else Some (finish b c key (Returned response))
           | Some (Failed e) \<Rightarrow> Some (finish b c key (Thrown e))
           | _ \<Rightarrow> None)
      | Some (Joined p) \<Rightarrow>
          (case map_option pm_state (promises b p) of
             Some (Fulfilled response) \<Rightarrow> Some (b\<lparr>callers := (callers b)(c \<mapsto> Returned response)\<rparr>)
           | Some (Failed e) \<Rightarrow> Some (b\<lparr>callers := (callers b)(c \<mapsto> Thrown e)\<rparr>)
           | _ \<Rightarrow> None)
      | _ \<Rightarrow> None)"
| "step b (StoreReply c) =
     (case callers b c of
        Some (Storing p key response) \<Rightarrow>
          Some (finish (b\<lparr>redis := (redis b)(key \<mapsto> (response, clock b + 3600000))\<rparr>)
                  c key (Returned response))
      | _ \<Rightarrow> None)"
| "step b (StoreError c e) =
     (case callers b c of
        Some (Storing p key response) \<Rightarrow> Some (finish b c key (Thrown e))
      | _ \<Rightarrow> None)"
| "step b (Tick d) = Some (b\<lparr>clock := clock b + d\<rparr>)"

fun run :: "broker \<Rightarrow> event list \<Rightarrow> broker option" where
  "run b [] = Some b"
| "run b (ev # evs) = (case step b ev of None \<Rightarrow> None | Some b' \<Rightarrow> run b' evs)"

text \<open>The promises of a key whose request is waiting for the backend's reply.\<close>

definition posting :: "broker \<Rightarrow> string \<Rightarrow> nat \<Rightarrow> bool" where
  "posting b key p =
     (case promises b p of
        None \<Rightarrow> False
      | Some pm \<Rightarrow> pm_key pm = key \<and> (case pm_state pm of Posting _ \<Rightarrow> True | _ \<Rightarrow> False))"

definition in_flight :: "broker \<Rightarrow> string \<Rightarrow> nat list" where
  "in_flight b key = filter (posting b key) [0..<next_promise b]"

definition posts_for :: "broker \<Rightarrow> string \<Rightarrow> nat" where
  "posts_for b key = length (filter (\<lambda>k. k = key) (posted b))"

text \<open>How a promise has settled, and how a call has ended.\<close>

definition settlement :: "broker \<Rightarrow> nat \<Rightarrow> (string + response) option" where
  "settlement b p =
     (case map_option pm_state (promises b p) of
        Some (Fulfilled r) \<Rightarrow> Some (Inr r)
      | Some (Failed e) \<Rightarrow> Some (Inl e)
      | _ \<Rightarrow> None)"

definition ending :: "broker \<Rightarrow> nat \<Rightarrow> (string + response) option" where
  "ending b c =
     (case callers b c of
        Some (Returned r) \<Rightarrow> Some (Inr r)
      | Some (Thrown e) \<Rightarrow> Some (Inl e)
      | _ \<Rightarrow> None)"

subsection \<open>Invariants of the broker\<close>

text \<open>
  The caller that made a promise owns it, under the key it registered it with, until its
  \<open>finally\<close> block has run. A promise is unsettled while a request or a backoff sleep of
  it is pending.
\<close>

fun owned :: "caller \<Rightarrow> (nat \<times> string) option" where
  "owned (Awaiting p key useCache) = Some (p, key)"
| "owned (Storing p key r) = Some (p, key)"
| "owned c = None"

fun unsettled :: "generation \<Rightarrow> bool" where
  "unsettled (Posting attempt) = True"
| "unsettled (Sleeping attempt e until) = True"
| "unsettled g = False"

text \<open>
  What holds in every state the broker can reach: an owned promise is the entry of its key;
  a promise has one owner; an unsettled promise is the entry of its key; promise numbers
  below the counter only; an entry points to a promise of its key; and a cache write is
  under way only with caching enabled and for the response its promise was fulfilled with.
\<close>

definition inv_owner :: "broker \<Rightarrow> bool" where
  "inv_owner b \<longleftrightarrow>
     (\<forall>c x p key. callers b c = Some x \<and> owned x = Some (p, key) \<longrightarrow> activeRequests b key = Some p)"

definition inv_unique :: "broker \<Rightarrow> bool" where
  "inv_unique b \<longleftrightarrow>
     (\<forall>c c' x x' p key key'. callers b c = Some x \<and> callers b c' = Some x' \<and>
         owned x = Some (p, key) \<and> owned x' = Some (p, key') \<longrightarrow> c = c')"

definition inv_unsettled :: "broker \<Rightarrow> bool" where
  "inv_unsettled b \<longleftrightarrow>
     (\<forall>p pm. promises b p = Some pm \<and> unsettled (pm_state pm) \<longrightarrow>
         activeRequests b (pm_key pm) = Some p)"

definition inv_bound :: "broker \<Rightarrow> bool" where
  "inv_bound b \<longleftrightarrow> (\<forall>p pm. promises b p = Some pm \<longrightarrow> p < next_promise b)"

definition inv_active :: "broker \<Rightarrow> bool" where
  "inv_active b \<longleftrightarrow>
     (\<forall>key p. activeRequests b key = Some p \<longrightarrow> (\<exists>pm. promises b p = Some pm \<and> pm_key pm = key))"

definition inv_storing :: "broker \<Rightarrow> bool" where
  "inv_storing b \<longleftrightarrow>
     (\<forall>c p key r. callers b c = Some (Storing p key r) \<longrightarrow>
         cacheEnabled b \<and> (\<exists>pm. promises b p = Some pm \<and> pm_state pm = Fulfilled r))"

definition broker_inv :: "broker \<Rightarrow> bool" where
  "broker_inv b \<longleftrightarrow>
     inv_owner b \<and> inv_unique b \<and> inv_unsettled b \<and> inv_bound b \<and> inv_active b \<and> inv_storing b"

definition owns_nothing :: "broker \<Rightarrow> nat \<Rightarrow> bool" where
  "owns_nothing b c \<longleftrightarrow> (case callers b c of None \<Rightarrow> True | Some x \<Rightarrow> owned x = None)"

text \<open>The call an event resumes.\<close>

fun actor :: "event \<Rightarrow> nat option" where
  "actor (Call c key useCache) = Some c"
| "actor (CacheReply c) = Some c"
| "actor (CacheError c e) = Some c"
| "actor (Resume c) = Some c"
| "actor (StoreReply c) = Some c"
| "actor (StoreError c e) = Some c"
| "actor ev = None"

text \<open>
  A call that returned the promise of another call is served by it: it is still waiting for
  it, or it has ended the way the promise settled. The call that made the promise may also
  end with the error of its cache write.
\<close>

definition served :: "broker \<Rightarrow> nat \<Rightarrow> nat \<Rightarrow> bool" where
  "served b c p \<longleftrightarrow>
     callers b c = Some (Joined p) \<or> (\<exists>out. ending b c = Some out \<and> settlement b p = Some out)"

definition owner_served :: "broker \<Rightarrow> nat \<Rightarrow> nat \<Rightarrow> bool \<Rightarrow> bool" where
  "owner_served b c p useCache \<longleftrightarrow>
     (\<exists>key. callers b c = Some (Awaiting p key useCache))
     \<or> (\<exists>key r. callers b c = Some (Storing p key r) \<and> cacheEnabled b \<and> useCache)
     \<or> (\<exists>out. ending b c = Some out \<and>
           (settlement b p = Some out
            \<or> (\<exists>r e. settlement b p = Some (Inr r) \<and> out = Inl e \<and> cacheEnabled b \<and> useCache)))"

text \<open>
  While a cache entry is live, it is in the store and no call has passed the cache lookup on
  its way to writing the key again.
\<close>

definition entry_kept :: "string \<Rightarrow> response \<Rightarrow> nat \<Rightarrow> broker \<Rightarrow> bool" where
  "entry_kept key r expiry b \<longleftrightarrow>
     (clock b < expiry \<longrightarrow>
        redis b key = Some (r, expiry) \<and>
        (\<forall>c p. callers b c \<noteq> Some (Awaiting p key True)) \<and>
        (\<forall>c p r'. callers b c \<noteq> Some (Storing p key r')))"

subsection \<open>Sample runs of the broker\<close>

text \<open>
  \<open>exec\<close> runs a list of events, skipping one that cannot happen in the state reached;
  \<open>all_enabled\<close> says that none was skipped.
\<close>

definition advance :: "broker \<Rightarrow> event \<Rightarrow> broker" where
  "advance b ev = (case step b ev of None \<Rightarrow> b | Some b' \<Rightarrow> b')"

definition happens :: "broker \<Rightarrow> event \<Rightarrow> bool" where
  "happens b ev = (case step b ev of None \<Rightarrow> False | Some _ \<Rightarrow> True)"

fun exec :: "broker \<Rightarrow> event list \<Rightarrow> broker" where
  "exec b [] = b"
| "exec b (ev # evs) = exec (advance b ev) evs"

fun all_enabled :: "broker \<Rightarrow> event list \<Rightarrow> bool" where
  "all_enabled b [] = True"
| "all_enabled b (ev # evs) = (happens b ev \<and> all_enabled (advance b ev) evs)"

definition sample_broker :: broker where
  "sample_broker = init_broker True None Map.empty"

text \<open>
  Call 0 asks with the cache, misses, posts the request, gets \<open>old\<close> and is about to write
  it to the cache.
\<close>

definition sample_first_call :: "event list" where
  "sample_first_call =
     [Call 0 ''k'' True, CacheReply 0, BackendReply 0 (Resolved ''old''), Resume 0]"

text \<open>
  After the write and a second later, call 1 asks for the same key without the cache and
  posts a request; while that request is pending, call 2 asks with the cache and call 3
  without.
\<close>

definition sample_later_calls :: "event list" where
  "sample_later_calls = [Tick 1000, Call 1 ''k'' False, Call 2 ''k'' True, Call 3 ''k'' False]"

definition sample_overlap :: "event list" where
  "sample_overlap = sample_first_call @ [StoreReply 0] @ sample_later_calls"

text \<open>
  Then the cache answers call 2, the backend answers the pending request with \<open>new\<close>, and
  calls 1 and 3 resume.
\<close>

definition sample_settled :: "event list" where
  "sample_settled = [CacheReply 2, BackendReply 1 (Resolved ''new''), Resume 1, Resume 3]"

text \<open>
  Another run: call 0 does not use the cache and posts the request; call 1 uses the cache,
  misses and returns the promise of call 0; both end with \<open>old\<close>; then call 2 asks
  with the cache.
\<close>

definition sample_joined_call :: "event list" where
  "sample_joined_call =
     [Call 0 ''k'' False, Call 1 ''k'' True, CacheReply 1, BackendReply 0 (Resolved ''old''),
      Resume 0, Resume 1]"

definition sample_next_call :: "event list" where
  "sample_next_call = [Call 2 ''k'' True, CacheReply 2]"

subsection \<open>The attempts of one generation\<close>

text \<open>
  The replies the backend gives to the requests of promise \<open>p\<close> along a list of events, in
  order; and the number of attempts a pending promise has behind it.
\<close>

definition reply_to :: "nat \<Rightarrow> event \<Rightarrow> response outcome list" where
  "reply_to p ev = (case ev of BackendReply q reply \<Rightarrow> if q = p then [reply] else [] | _ \<Rightarrow> [])"

definition replies_to :: "nat \<Rightarrow> event list \<Rightarrow> response outcome list" where
  "replies_to p evs = concat (map (reply_to p) evs)"

fun failed_attempts :: "generation \<Rightarrow> nat" where
  "failed_attempts (Posting attempt) = attempt"
| "failed_attempts (Sleeping attempt e until) = attempt + 1"
| "failed_attempts g = 0"

text \<open>
  A broker configured with \<open>maxRetries = 5\<close>: call 0 misses the cache and posts; the
  backend fails three times and then answers \<open>ok\<close>; the timers fire after 1, 2 and 4
  seconds. Then the call resumes and writes the cache.
\<close>

definition sample_patient_broker :: broker where
  "sample_patient_broker = init_broker True (Some 5) Map.empty"

definition sample_asked :: "event list" where
  "sample_asked = [Call 0 ''k'' True, CacheReply 0]"

definition sample_flaky_backend :: "event list" where
  "sample_flaky_backend =
     [BackendReply 0 (Rejected ''timeout of 300000ms exceeded''), Tick 1000, Wake 0,
      BackendReply 0 (Rejected ''socket hang up''), Tick 2000, Wake 0,
      BackendReply 0 (Rejected ''timeout of 300000ms exceeded''), Tick 4000, Wake 0,
      BackendReply 0 (Resolved ''ok'')]"

text \<open>
  A broker configured with \<open>maxRetries = 2\<close> whose backend fails twice.
\<close>

definition sample_hasty_broker :: broker where
  "sample_hasty_broker = init_broker True (Some 2) Map.empty"

definition sample_dead_backend :: "event list" where
  "sample_dead_backend =
     [BackendReply 0 (Rejected ''timeout of 300000ms exceeded''), Tick 1000, Wake 0,
      BackendReply 0 (Rejected ''connect ECONNREFUSED'')]"

text \<open>
  The default broker: the backend fails once and then answers \<open>ok\<close>; the call resumes and
  its cache write is refused.
\<close>

definition sample_unsaved :: "event list" where
  "sample_unsaved =
     [Call 0 ''k'' True, CacheReply 0, BackendReply 0 (Rejected ''socket hang up''), Tick 1000,
      Wake 0, BackendReply 0 (Resolved ''ok''), Resume 0, StoreError 0 ''READONLY'']"

section \<open>Message envelopes (mcp-server/src/protocols/mcp.ts)\<close>

text \<open>
  \<open>validate\<close> takes any value, so the model has a type of JavaScript values. Numbers are
  the integers and \<open>NaN\<close>, which is all that truthiness tells apart; an object is the list of
  its own properties, each name once.
\<close>

datatype jsval =
  JUndefined
| JNull
| JBool bool
| JNum int
| JNaN
| JStr string
| JArr "jsval list"
| JObj "(string \<times> jsval) list"
| JFun

fun truthy :: "jsval \<Rightarrow> bool" where
  "truthy JUndefined = False"
| "truthy JNull = False"
| "truthy (JBool b) = b"
| "truthy (JNum n) = (n \<noteq> 0)"
| "truthy JNaN = False"
| "truthy (JStr s) = (s \<noteq> [])"
| "truthy (JArr xs) = True"
| "truthy (JObj ps) = True"
| "truthy JFun = True"

text \<open>\<open>typeof v === "object"\<close>: objects, arrays and \<open>null\<close>.\<close>

fun typeof_object :: "jsval \<Rightarrow> bool" where
  "typeof_object JNull = True"
| "typeof_object (JArr xs) = True"
| "typeof_object (JObj ps) = True"
| "typeof_object v = False"

text \<open>
  Reading one of the properties \<open>id\<close>, \<open>type\<close> and \<open>method\<close>: an object gives the value
  stored under the name, or \<open>undefined\<close>; an array has no property of these names.
\<close>

fun js_prop :: "jsval \<Rightarrow> string \<Rightarrow> jsval" where
  "js_prop (JObj ps) name = (case map_of ps name of None \<Rightarrow> JUndefined | Some v \<Rightarrow> v)"
| "js_prop v name = JUndefined"

definition message_types :: "string list" where
  "message_types = [''request'', ''response'', ''notification'']"

text \<open>\<open>Array.prototype.includes\<close> on an array of strings: only an equal string is a member.\<close>

fun includes_str :: "string list \<Rightarrow> jsval \<Rightarrow> bool" where
  "includes_str xs (JStr s) = (s \<in> set xs)"
| "includes_str xs v = False"

definition validate :: "jsval \<Rightarrow> bool" where
  "validate message =
     (if \<not> truthy message \<or> \<not> typeof_object message then False
      else if \<not> truthy (js_prop message ''id'') \<or> \<not> truthy (js_prop message ''type'')
              \<or> \<not> truthy (js_prop message ''method'') then False
      else if \<not> includes_str message_types (js_prop message ''type'') then False
      else True)"

text \<open>
  The factories. \<open>Date.now()\<close> is the parameter \<open>now\<close>; an optional argument that is left
  out arrives as \<open>undefined\<close>.
\<close>

definition createRequest :: "string \<Rightarrow> jsval \<Rightarrow> nat \<Rightarrow> jsval" where
  "createRequest method params now =
     JObj [(''id'', JStr (show_nat now)), (''type'', JStr ''request''), (''method'', JStr method),
           (''params'', params), (''timestamp'', JNum (int now))]"

definition createResponse :: "string \<Rightarrow> jsval \<Rightarrow> nat \<Rightarrow> jsval" where
  "createResponse requestId result now =
     JObj [(''id'', JStr requestId), (''type'', JStr ''response''), (''method'', JStr []),
           (''result'', result), (''timestamp'', JNum (int now))]"

definition createError :: "string \<Rightarrow> int \<Rightarrow> string \<Rightarrow> jsval \<Rightarrow> nat \<Rightarrow> jsval" where
  "createError requestId code message data now =
     JObj [(''id'', JStr requestId), (''type'', JStr ''response''), (''method'', JStr []),
           (''error'', JObj [(''code'', JNum code), (''message'', JStr message), (''data'', data)]),
           (''timestamp'', JNum (int now))]"

definition createNotification :: "string \<Rightarrow> jsval \<Rightarrow> nat \<Rightarrow> jsval" where
  "createNotification method params now =
     JObj [(''id'', JStr (show_nat now)), (''type'', JStr ''notification''), (''method'', JStr method),
           (''params'', params), (''timestamp'', JNum (int now))]"

section \<open>Request handler and REST routes (mcp-server/src/index.ts)\<close>


















subsection \<open>The route \<open>GET /sessions\<close>\<close>

text \<open>
  The route asks the store for the keys \<open>session:*\<close>, reads every key and parses what it
  reads; a key without a value gives \<open>null\<close>, and the \<open>null\<close>s are filtered out of the
  answer. The reads run under \<open>Promise.all\<close>, and nothing in the route catches: the first
  read or parse that throws rejects the handler and no answer is sent. \<open>JSON.parse\<close> is a
  parameter of the model; it rejects a text that is not JSON.
\<close>

fun all_resolved :: "(string + 'a) list \<Rightarrow> string + 'a list" where
  "all_resolved [] = Inr []"
| "all_resolved (Inl e # rs) = Inl e"
| "all_resolved (Inr v # rs) = (case all_resolved rs of Inl e \<Rightarrow> Inl e | Inr vs \<Rightarrow> Inr (v # vs))"

definition read_session ::
  "(string \<Rightarrow> jsval outcome) \<Rightarrow> (string \<Rightarrow> string option outcome) \<Rightarrow> string \<Rightarrow> string + jsval" where
  "read_session JSON_parse redis_get key =
     (case redis_get key of
        Rejected e \<Rightarrow> Inl e
      | Resolved None \<Rightarrow> Inr JNull
      | Resolved (Some data) \<Rightarrow>
          if data = [] then Inr JNull
          else (case JSON_parse data of Rejected e \<Rightarrow> Inl e | Resolved v \<Rightarrow> Inr v))"

definition get_sessions ::
  "(string \<Rightarrow> jsval outcome) \<Rightarrow> string list outcome \<Rightarrow> (string \<Rightarrow> string option outcome) \<Rightarrow>
   string + jsval list" where
  "get_sessions JSON_parse redis_keys redis_get =
     (case redis_keys of
        Rejected e \<Rightarrow> Inl e
      | Resolved keys \<Rightarrow>
          (case all_resolved (map (read_session JSON_parse redis_get) keys) of
             Inl e \<Rightarrow> Inl e
           | Inr parsed \<Rightarrow> Inr (filter (\<lambda>session. session \<noteq> JNull) parsed)))"

text \<open>
  A sample store: one session kept as the text \<open>{}\<close>, one key whose value has expired
  between the two commands, and one value cut short, \<open>{\<close>. \<open>sample_parse\<close> is
  \<open>JSON.parse\<close> on these texts.
\<close>

definition sample_parse :: "string \<Rightarrow> jsval outcome" where
  "sample_parse text =
     (if text = ''{}'' then Resolved (JObj [])
      else if text = ''null'' then Resolved JNull
      else Rejected ''Unexpected end of JSON input'')"

definition sample_store :: "string \<Rightarrow> string option outcome" where
  "sample_store key =
     (if key = ''session:a'' then Resolved (Some ''{}'')
      else if key = ''session:c'' then Resolved (Some ''{'')
      else Resolved None)"
section \<open>Properties of the workflow manager\<close>

lemma workflows_updateStageProgress:
  "workflows (updateStageProgress m sid stg st p det now) sid' =
     (if sid' = sid
      then map_option (\<lambda>w. w\<lparr>stages := update_first (\<lambda>s. sp_stage s = stg) (stamp_stage st p det now) (stages w),
                              lastUpdateTime := now\<rparr>) (workflows m sid)
      else workflows m sid')"
  by (simp add: updateStageProgress_def split: option.splits)

lemma listeners_updateStageProgress [simp]:
  "crawl_listeners (updateStageProgress m sid stg st p det now) = crawl_listeners m"
  by (simp add: updateStageProgress_def split: option.splits)

lemma workflows_recordError:
  "workflows (recordError m sid stg msg now) sid' =
     (if sid' = sid
      then map_option (\<lambda>w. w\<lparr>errors := record_in stg msg now (errors w),
                              stages := update_first (\<lambda>s. sp_stage s = stg) (stamp_stage failed 0 None now) (stages w),
                              lastUpdateTime := now\<rparr>) (workflows m sid)
      else workflows m sid')"
  by (simp add: recordError_def workflows_updateStageProgress split: option.splits)

lemma listeners_recordError [simp]:
  "crawl_listeners (recordError m sid stg msg now) = crawl_listeners m"
  by (simp add: recordError_def split: option.splits)

lemma workflows_set_currentStage:
  "workflows (set_currentStage m sid stg) sid' =
     (if sid' = sid then map_option (\<lambda>w. w\<lparr>currentStage := stg\<rparr>) (workflows m sid)
      else workflows m sid')"
  by (simp add: set_currentStage_def split: option.splits)

lemma workflows_set_projectId:
  "workflows (set_projectId m sid pid) sid' =
     (if sid' = sid then map_option (\<lambda>w. w\<lparr>metadata := (metadata w)\<lparr>md_projectId := Some pid\<rparr>\<rparr>) (workflows m sid)
      else workflows m sid')"
  by (simp add: set_projectId_def split: option.splits)

lemma stage_of_updateStageProgress [simp]:
  "stage_of (updateStageProgress m sid' stg st p det now) sid = stage_of m sid"
  by (simp add: stage_of_def workflows_updateStageProgress option.map_comp comp_def)

lemma stage_of_recordError [simp]:
  "stage_of (recordError m sid' stg msg now) sid = stage_of m sid"
  by (simp add: stage_of_def workflows_recordError option.map_comp comp_def)

lemma stage_of_set_projectId [simp]:
  "stage_of (set_projectId m sid' pid) sid = stage_of m sid"
  by (simp add: stage_of_def workflows_set_projectId option.map_comp comp_def)


lemma stage_of_crawl_listeners [simp]:
  "stage_of (m\<lparr>crawl_listeners := ls\<rparr>) sid = stage_of m sid"
  by (simp add: stage_of_def)

lemma stage_of_foldl_crawl:
  "stage_of (foldl (on_crawl_progress now) m ls) sid = stage_of m sid"
  by (induction ls arbitrary: m) (simp_all add: on_crawl_progress_def)

lemma stage_of_crawl_progress_event [simp]:
  "stage_of (crawl_progress_event now m) sid = stage_of m sid"
  by (simp add: crawl_progress_event_def stage_of_foldl_crawl)

lemma stage_of_crawl_events [simp]:
  "stage_of ((crawl_progress_event now ^^ n) m) sid = stage_of m sid"
  by (induction n) simp_all

















subsection \<open>Error entries\<close>

lemma find_update_first_same:
  assumes "\<And>x. P x \<Longrightarrow> P (f x)"
  shows "find P (update_first P f xs) = map_option f (find P xs)"
  using assms by (induction xs) auto

lemma find_update_first_other:
  assumes "\<And>x. Q (f x) = Q x" and "\<And>x. P x \<Longrightarrow> \<not> Q x"
  shows "find Q (update_first P f xs) = find Q xs"
  using assms by (induction xs) auto

lemma map_update_first:
  assumes "\<And>x. g (f x) = g x"
  shows "map g (update_first P f xs) = map g xs"
  using assms by (induction xs) auto

lemma length_update_first [simp]: "length (update_first P f xs) = length xs"
  by (induction xs) auto

lemma filter_update_first:
  assumes "\<And>x. P x \<Longrightarrow> P (f x)" and "find P xs = Some e" and "filter P xs = [e]"
  shows "filter P (update_first P f xs) = [f e]"
  using assms
proof (induction xs)
  case Nil
  then show ?case by simp
next
  case (Cons x xs)
  show ?case
  proof (cases "P x")
    case True
    then show ?thesis using Cons.prems by auto
  next
    case False
    then show ?thesis using Cons by auto
  qed
qed

lemma sp_stage_stamp [simp]: "sp_stage (stamp_stage st p det now sp) = sp_stage sp"
  by (simp add: stamp_stage_def Let_def split: option.splits)

lemma we_stage_bump [simp]: "we_stage (bump_error msg now e) = we_stage e"
  by (simp add: bump_error_def)

lemma find_None_filter: "find P xs = None \<longleftrightarrow> filter P xs = []"
  by (induction xs) auto

lemma map_stage_record_in:
  "map we_stage (record_in stg msg now es) =
     (if find (\<lambda>e. we_stage e = stg) es = None then map we_stage es @ [stg] else map we_stage es)"
  by (auto simp add: record_in_def map_update_first split: option.splits)

lemma distinct_record_in:
  "distinct (map we_stage es) \<Longrightarrow> distinct (map we_stage (record_in stg msg now es))"
  by (auto simp add: map_stage_record_in find_None_iff)

lemma find_record_in_existing:
  "find (\<lambda>e. we_stage e = stg) es = Some e \<Longrightarrow>
   find (\<lambda>e. we_stage e = stg) (record_in stg msg now es) = Some (bump_error msg now e)
   \<and> length (record_in stg msg now es) = length es"
  by (simp add: record_in_def find_update_first_same)

lemma find_snoc_None:
  "find P xs = None \<Longrightarrow> find P (xs @ [y]) = (if P y then Some y else None)"
  by (induction xs) (auto split: if_splits)

lemma entries_record_in_fresh:
  assumes "entries_for stg es = []"
  shows "entries_for stg (record_in stg msg now es) =
     [\<lparr>we_stage = stg, we_error = msg, we_timestamp = now, we_retryCount = 0\<rparr>]
   \<and> find (\<lambda>e. we_stage e = stg) (record_in stg msg now es) =
     Some \<lparr>we_stage = stg, we_error = msg, we_timestamp = now, we_retryCount = 0\<rparr>"
proof -
  have none: "find (\<lambda>e. we_stage e = stg) es = None"
    using assms by (simp add: find_None_filter entries_for_def)
  then have "record_in stg msg now es =
      es @ [\<lparr>we_stage = stg, we_error = msg, we_timestamp = now, we_retryCount = 0\<rparr>]"
    by (simp add: record_in_def)
  then show ?thesis
    using assms none by (simp add: entries_for_def find_snoc_None)
qed

lemma entries_record_in_twice:
  assumes "entries_for stg es = []"
  shows "entries_for stg (record_in stg msg2 t2 (record_in stg msg1 t1 es)) =
     [\<lparr>we_stage = stg, we_error = msg2, we_timestamp = t2, we_retryCount = 1\<rparr>]"
proof -
  let ?e = "\<lparr>we_stage = stg, we_error = msg1, we_timestamp = t1, we_retryCount = 0\<rparr>"
  let ?es1 = "record_in stg msg1 t1 es"
  have 1: "filter (\<lambda>e. we_stage e = stg) ?es1 = [?e]" and 2: "find (\<lambda>e. we_stage e = stg) ?es1 = Some ?e"
    using entries_record_in_fresh [OF assms, of msg1 t1] by (simp_all add: entries_for_def)
  have "filter (\<lambda>e. we_stage e = stg) (update_first (\<lambda>e. we_stage e = stg) (bump_error msg2 t2) ?es1)
        = [bump_error msg2 t2 ?e]"
    by (rule filter_update_first [OF _ 2 1]) simp
  then show ?thesis
    using 2 by (simp add: entries_for_def record_in_def [of stg msg2 t2] bump_error_def)
qed

lemma errors_of_updateStageProgress [simp]:
  "errors_of (updateStageProgress m sid' stg st p det now) sid = errors_of m sid"
  by (simp add: errors_of_def workflows_updateStageProgress split: option.splits)

lemma errors_of_set_currentStage [simp]:
  "errors_of (set_currentStage m sid' stg) sid = errors_of m sid"
  by (simp add: errors_of_def workflows_set_currentStage split: option.splits)

lemma errors_of_set_projectId [simp]:
  "errors_of (set_projectId m sid' pid) sid = errors_of m sid"
  by (simp add: errors_of_def workflows_set_projectId split: option.splits)

lemma errors_of_crawl_listeners [simp]:
  "errors_of (m\<lparr>crawl_listeners := ls\<rparr>) sid = errors_of m sid"
  by (simp add: errors_of_def)

lemma errors_of_recordError:
  "errors_of (recordError m sid' stg msg now) sid =
     (if sid = sid' \<and> workflows m sid \<noteq> None then record_in stg msg now (errors_of m sid)
      else errors_of m sid)"
  by (auto simp add: errors_of_def workflows_recordError split: option.splits)

lemma errors_distinct_updateStageProgress [simp]:
  "errors_distinct (updateStageProgress m sid stg st p det now) = errors_distinct m"
  by (simp add: errors_distinct_def)

lemma errors_distinct_set_currentStage [simp]:
  "errors_distinct (set_currentStage m sid stg) = errors_distinct m"
  by (simp add: errors_distinct_def)

lemma errors_distinct_set_projectId [simp]:
  "errors_distinct (set_projectId m sid pid) = errors_distinct m"
  by (simp add: errors_distinct_def)

lemma errors_distinct_crawl_listeners [simp]:
  "errors_distinct (m\<lparr>crawl_listeners := ls\<rparr>) = errors_distinct m"
  by (simp add: errors_distinct_def)

lemma errors_distinct_recordError [simp]:
  "errors_distinct m \<Longrightarrow> errors_distinct (recordError m sid stg msg now)"
  by (simp add: errors_distinct_def errors_of_recordError distinct_record_in)

lemma errors_distinct_foldl_crawl:
  "errors_distinct (foldl (on_crawl_progress now) m ls) = errors_distinct m"
  by (induction ls arbitrary: m) (simp_all add: on_crawl_progress_def)

lemma errors_distinct_crawl_events [simp]:
  "errors_distinct ((crawl_progress_event now ^^ n) m) = errors_distinct m"
  by (induction n) (simp_all add: crawl_progress_event_def errors_distinct_foldl_crawl)

lemma errors_distinct_register:
  "errors_distinct m \<Longrightarrow> distinct (map we_stage (errors w)) \<Longrightarrow>
   errors_distinct (m\<lparr>workflows := (workflows m)(k \<mapsto> w)\<rparr>)"
  by (simp add: errors_distinct_def errors_of_def)

lemma errors_distinct_createResearchPlan:
  "errors_distinct m \<Longrightarrow> errors_distinct (fst (createResearchPlan m topic cl env now))"
  by (simp add: createResearchPlan_def Let_def errors_distinct_register new_workflow_def
      split: outcome.splits)

lemma errors_distinct_executeResearch:
  "errors_distinct m \<Longrightarrow> errors_distinct (fst (executeResearch m sid env now))"
  by (simp add: executeResearch_def Let_def split: option.splits outcome.splits)

lemma errors_distinct_refineResearch:
  "errors_distinct m \<Longrightarrow> errors_distinct (fst (refineResearch m sid r now))"
  by (simp add: refineResearch_def Let_def split: option.splits outcome.splits)

lemma errors_distinct_runTests:
  "errors_distinct m \<Longrightarrow> errors_distinct (fst (runTests m sid env now))"
  by (simp add: runTests_def Let_def split: option.splits outcome.splits)

lemma errors_distinct_startDevelopment_try:
  "errors_distinct m \<Longrightarrow> errors_distinct (fst (startDevelopment_try m sid env now))"
  by (simp add: startDevelopment_try_def Let_def split: option.splits outcome.splits sum.splits)

lemma errors_distinct_startDevelopment:
  assumes "errors_distinct m"
  shows "errors_distinct (fst (startDevelopment m sid env now))"
proof -
  let ?m1 = "updateStageProgress (set_currentStage m sid DEVELOPMENT) sid
                      DEVELOPMENT in_progress 10 None now"
  have "errors_distinct (fst (startDevelopment_try ?m1 sid env now))"
    using assms by (intro errors_distinct_startDevelopment_try) simp
  then show ?thesis
    using assms by (auto simp add: startDevelopment_def Let_def split: option.splits prod.splits sum.splits)
qed

lemma errors_distinct_generateDocuments_try:
  "errors_distinct m \<Longrightarrow> errors_distinct (fst (generateDocuments_try m sid options env now))"
  by (simp add: generateDocuments_try_def Let_def split: option.splits outcome.splits sum.splits)

lemma errors_distinct_generateDocuments:
  assumes "errors_distinct m"
  shows "errors_distinct (fst (generateDocuments m sid options env now))"
proof -
  let ?m1 = "updateStageProgress (set_currentStage m sid DOCUMENTATION) sid
                      DOCUMENTATION in_progress 10 None now"
  have "errors_distinct (fst (generateDocuments_try ?m1 sid options env now))"
    using assms by (intro errors_distinct_generateDocuments_try) simp
  then show ?thesis
    using assms by (auto simp add: generateDocuments_def Let_def split: option.splits prod.splits sum.splits)
qed

lemma errors_distinct_apply_call:
  "errors_distinct m \<Longrightarrow> errors_distinct (apply_call m c)"
proof (cases c)
  case (Pair call now)
  assume "errors_distinct m"
  then show ?thesis
    using Pair
    by (cases call)
       (simp_all add: errors_distinct_createResearchPlan errors_distinct_executeResearch
          errors_distinct_refineResearch errors_distinct_startDevelopment
          errors_distinct_runTests errors_distinct_generateDocuments)
qed

lemma errors_distinct_run_calls:
  "errors_distinct m \<Longrightarrow> errors_distinct (run_calls m cs)"
  by (induction cs arbitrary: m) (simp_all add: run_calls_def errors_distinct_apply_call)

lemma errors_distinct_empty: "errors_distinct empty_manager"
  by (simp add: errors_distinct_def errors_of_def empty_manager_def)


subsection \<open>Stage records\<close>

lemma find_stage_update_first:
  "find (\<lambda>s. sp_stage s = stg) (update_first (\<lambda>s. sp_stage s = stg') (stamp_stage st p det now) xs) =
     (if stg = stg' then map_option (stamp_stage st p det now) (find (\<lambda>s. sp_stage s = stg) xs)
      else find (\<lambda>s. sp_stage s = stg) xs)"
proof (cases "stg = stg'")
  case True
  then show ?thesis by (simp add: find_update_first_same)
next
  case False
  have "find (\<lambda>s. sp_stage s = stg)
          (update_first (\<lambda>s. sp_stage s = stg') (stamp_stage st p det now) xs) =
        find (\<lambda>s. sp_stage s = stg) xs"
    by (rule find_update_first_other) (use False in auto)
  then show ?thesis using False by simp
qed

lemma stage_record_updateStageProgress:
  "stage_record (updateStageProgress m sid' stg' st p det now) sid stg =
     (if sid = sid' \<and> stg = stg' then map_option (stamp_stage st p det now) (stage_record m sid stg)
      else stage_record m sid stg)"
  by (auto simp add: stage_record_def workflows_updateStageProgress find_stage_update_first
      split: option.splits)


lemma stage_record_set_currentStage [simp]:
  "stage_record (set_currentStage m sid' s) sid stg = stage_record m sid stg"
  by (auto simp add: stage_record_def workflows_set_currentStage split: option.splits)

lemma stage_record_set_projectId [simp]:
  "stage_record (set_projectId m sid' pid) sid stg = stage_record m sid stg"
  by (auto simp add: stage_record_def workflows_set_projectId split: option.splits)

lemma stage_record_crawl_listeners [simp]:
  "stage_record (m\<lparr>crawl_listeners := ls\<rparr>) sid stg = stage_record m sid stg"
  by (simp add: stage_record_def)










lemma stamp_stage_final:
  "st = completed \<or> st = failed \<Longrightarrow>
   sp_status (stamp_stage st p det now sp) = st \<and> sp_progress (stamp_stage st p det now sp) = p
   \<and> sp_endTime (stamp_stage st p det now sp) = Some now"
  by (auto simp add: stamp_stage_def Let_def split: option.splits)

section \<open>Claims about the workflow manager\<close>

text \<open>
  C7. Recording an error for a stage that already has an entry keeps the list as long as it
  was and turns that entry into one with the retry count raised by one and the new message
  and time; recording two errors for a stage that had no entry leaves exactly one entry for
  it, with retry count 1; and whatever calls are made on a fresh manager, no session ever
  holds two entries for one stage.
\<close>

theorem recordError_one_entry_per_stage:
  "(has_workflow m sid \<and> find (\<lambda>e. we_stage e = stg) (errors_of m sid) = Some e \<longrightarrow>
      length (errors_of (recordError m sid stg msg now) sid) = length (errors_of m sid) \<and>
      find (\<lambda>e. we_stage e = stg) (errors_of (recordError m sid stg msg now) sid) =
        Some (e\<lparr>we_retryCount := we_retryCount e + 1, we_error := msg, we_timestamp := now\<rparr>))
   \<and> (has_workflow m sid \<and> entries_for stg (errors_of m sid) = [] \<longrightarrow>
      entries_for stg
        (errors_of (recordError (recordError m sid stg msg1 t1) sid stg msg2 t2) sid) =
        [\<lparr>we_stage = stg, we_error = msg2, we_timestamp = t2, we_retryCount = 1\<rparr>])
   \<and> distinct (map we_stage (errors_of (run_calls empty_manager cs) sid))"
proof (intro conjI impI)
  assume a: "has_workflow m sid \<and> find (\<lambda>e. we_stage e = stg) (errors_of m sid) = Some e"
  then have ex: "workflows m sid \<noteq> None"
    by (auto simp add: has_workflow_def split: option.splits)
  show "length (errors_of (recordError m sid stg msg now) sid) = length (errors_of m sid)"
    using a ex find_record_in_existing [of stg "errors_of m sid" e msg now]
    by (simp add: errors_of_recordError)
  show "find (\<lambda>e. we_stage e = stg) (errors_of (recordError m sid stg msg now) sid) =
        Some (e\<lparr>we_retryCount := we_retryCount e + 1, we_error := msg, we_timestamp := now\<rparr>)"
    using a ex find_record_in_existing [of stg "errors_of m sid" e msg now]
    by (simp add: errors_of_recordError bump_error_def)
next
  assume a: "has_workflow m sid \<and> entries_for stg (errors_of m sid) = []"
  then have ex: "workflows m sid \<noteq> None"
    by (auto simp add: has_workflow_def split: option.splits)
  then have ex1: "workflows (recordError m sid stg msg1 t1) sid \<noteq> None"
    by (auto simp add: workflows_recordError)
  show "entries_for stg
        (errors_of (recordError (recordError m sid stg msg1 t1) sid stg msg2 t2) sid) =
        [\<lparr>we_stage = stg, we_error = msg2, we_timestamp = t2, we_retryCount = 1\<rparr>]"
    using a ex ex1 entries_record_in_twice [of stg "errors_of m sid" msg2 t2 msg1 t1]
    by (simp add: errors_of_recordError)
next
  show "distinct (map we_stage (errors_of (run_calls empty_manager cs) sid))"
    using errors_distinct_run_calls [OF errors_distinct_empty, of cs]
    by (simp add: errors_distinct_def)
qed

theorem recordError_one_entry_per_stage_witness:
  "has_workflow sample_created ''session_5''
   \<and> entries_for TESTING (errors_of sample_created ''session_5'') = []
   \<and> entries_for TESTING
       (errors_of (recordError (recordError sample_created ''session_5'' TESTING ''timeout'' 6)
                     ''session_5'' TESTING ''refused'' 7) ''session_5'') =
       [\<lparr>we_stage = TESTING, we_error = ''refused'', we_timestamp = 7, we_retryCount = 1\<rparr>]
   \<and> find (\<lambda>e. we_stage e = TESTING)
       (errors_of (recordError sample_created ''session_5'' TESTING ''timeout'' 6) ''session_5'') =
       Some \<lparr>we_stage = TESTING, we_error = ''timeout'', we_timestamp = 6, we_retryCount = 0\<rparr>
   \<and> find (\<lambda>e. we_stage e = TESTING)
       (errors_of (recordError (recordError sample_created ''session_5'' TESTING ''timeout'' 6)
                     ''session_5'' TESTING ''refused'' 7) ''session_5'') =
       Some \<lparr>we_stage = TESTING, we_error = ''refused'', we_timestamp = 7, we_retryCount = 1\<rparr>"
proof -
  have h1: "has_workflow sample_created ''session_5''"
    by code_simp
  have h2: "entries_for TESTING (errors_of sample_created ''session_5'') = []"
    by code_simp
  have h3: "has_workflow (recordError sample_created ''session_5'' TESTING ''timeout'' 6) ''session_5''"
    by code_simp
  have h4: "find (\<lambda>e. we_stage e = TESTING)
       (errors_of (recordError sample_created ''session_5'' TESTING ''timeout'' 6) ''session_5'') =
       Some \<lparr>we_stage = TESTING, we_error = ''timeout'', we_timestamp = 6, we_retryCount = 0\<rparr>"
    by code_simp
  note two = recordError_one_entry_per_stage
    [of sample_created "''session_5''" TESTING _ _ _ "''timeout''" 6 "''refused''" 7]
  note again = recordError_one_entry_per_stage
    [of "recordError sample_created ''session_5'' TESTING ''timeout'' 6" "''session_5''" TESTING
        "\<lparr>we_stage = TESTING, we_error = ''timeout'', we_timestamp = 6, we_retryCount = 0\<rparr>"
        "''refused''" 7]
  from two h1 h2 have c1: "entries_for TESTING
       (errors_of (recordError (recordError sample_created ''session_5'' TESTING ''timeout'' 6)
                     ''session_5'' TESTING ''refused'' 7) ''session_5'') =
       [\<lparr>we_stage = TESTING, we_error = ''refused'', we_timestamp = 7, we_retryCount = 1\<rparr>]"
    by blast
  from again h3 h4 have c2: "find (\<lambda>e. we_stage e = TESTING)
       (errors_of (recordError (recordError sample_created ''session_5'' TESTING ''timeout'' 6)
                     ''session_5'' TESTING ''refused'' 7) ''session_5'') =
       Some \<lparr>we_stage = TESTING, we_error = ''refused'', we_timestamp = 7, we_retryCount = 1\<rparr>"
    by simp
  show ?thesis using h1 h2 h4 c1 c2 by simp
qed







text \<open>
  C10, as the code has it. When the test request returns a result and that result is saved
  to the store, \<open>runTests\<close> returns it and leaves the testing stage completed, at 100 when
  the result reports zero failed tests and at 80 otherwise.
\<close>

theorem runTests_completed_when_saved:
  "projectId_of m sid = Some pid \<and> pid \<noteq> [] \<and> has_stage m sid TESTING \<and>
   te_run env = Resolved r \<and> te_saved env = Resolved ()
   \<longrightarrow> snd (runTests m sid env now) = Inr r \<and>
       status_of (fst (runTests m sid env now)) sid TESTING = Some completed \<and>
       progress_of (fst (runTests m sid env now)) sid TESTING =
         Some (if tr_failed r = Some 0 then 100 else 80)"
proof
  assume a: "projectId_of m sid = Some pid \<and> pid \<noteq> [] \<and> has_stage m sid TESTING \<and>
   te_run env = Resolved r \<and> te_saved env = Resolved ()"
  then obtain w where w: "workflows m sid = Some w" "md_projectId (metadata w) = Some pid"
    by (auto simp add: projectId_of_def split: option.splits)
  from a obtain sp where sp: "stage_record m sid TESTING = Some sp"
    by (auto simp add: has_stage_def split: option.splits)
  have run: "runTests m sid env now =
     (updateStageProgress (updateStageProgress m sid TESTING in_progress 10 None now) sid TESTING
        completed (if tr_failed r = Some 0 then 100 else 80) None now, Inr r)"
    using a w by (simp add: runTests_def Let_def)
  show "snd (runTests m sid env now) = Inr r \<and>
       status_of (fst (runTests m sid env now)) sid TESTING = Some completed \<and>
       progress_of (fst (runTests m sid env now)) sid TESTING =
         Some (if tr_failed r = Some 0 then 100 else 80)"
    using sp stamp_stage_final [of completed _ None now]
    by (simp add: run status_of_def progress_of_def stage_record_updateStageProgress)
qed

theorem runTests_completed_when_saved_witness:
  "projectId_of sample_developed ''session_5'' = Some ''p1'' \<and> ''p1'' \<noteq> []
   \<and> has_stage sample_developed ''session_5'' TESTING
   \<and> te_run sample_test_env = Resolved \<lparr>tr_failed = Some 2, tr_report = ''2 failed''\<rparr>
   \<and> te_saved sample_test_env = Resolved ()
   \<and> status_of (fst (runTests sample_developed ''session_5'' sample_test_env 8)) ''session_5'' TESTING
       = Some completed
   \<and> progress_of (fst (runTests sample_developed ''session_5'' sample_test_env 8)) ''session_5'' TESTING
       = Some 80"
proof -
  have h: "projectId_of sample_developed ''session_5'' = Some ''p1'' \<and> ''p1'' \<noteq> []
     \<and> has_stage sample_developed ''session_5'' TESTING
     \<and> te_run sample_test_env = Resolved \<lparr>tr_failed = Some 2, tr_report = ''2 failed''\<rparr>
     \<and> te_saved sample_test_env = Resolved ()"
    by code_simp
  from runTests_completed_when_saved
    [of sample_developed "''session_5''" "''p1''" sample_test_env
        "\<lparr>tr_failed = Some 2, tr_report = ''2 failed''\<rparr>" 8] h
  show ?thesis by simp
qed

text \<open>
  The claim as stated fails: the test request returns a result, writing it to the store
  fails, and the testing stage ends failed at 0.
\<close>

theorem runTests_failed_when_unsaved_counterexample:
  "te_run sample_test_env_unsaved = Resolved \<lparr>tr_failed = Some 2, tr_report = ''2 failed''\<rparr>
   \<and> status_of (fst (runTests sample_developed ''session_5'' sample_test_env_unsaved 8))
        ''session_5'' TESTING = Some failed
   \<and> progress_of (fst (runTests sample_developed ''session_5'' sample_test_env_unsaved 8))
        ''session_5'' TESTING = Some 0"
  by code_simp
section \<open>Properties of the generation broker\<close>

lemmas inv_defs = inv_owner_def inv_unique_def inv_unsettled_def inv_bound_def inv_active_def
  inv_storing_def

lemma broker_inv_init: "broker_inv (init_broker caching configured store)"
  by (simp add: broker_inv_def inv_defs init_broker_def)

text \<open>A caller that owns nothing moves to a state that owns nothing.\<close>

lemma owns_nothingD: "owns_nothing b c \<Longrightarrow> callers b c = Some x \<Longrightarrow> owned x = None"
  by (simp add: owns_nothing_def)

lemma inv_set_plain_caller:
  assumes "broker_inv b" and plain: "owns_nothing b c" and "owned y = None"
  shows "broker_inv (b\<lparr>callers := (callers b)(c \<mapsto> y)\<rparr>)"
proof -
  note assms = assms(1) owns_nothingD [OF plain] assms(3)
  have 1: "inv_owner (b\<lparr>callers := (callers b)(c \<mapsto> y)\<rparr>)"
    using assms unfolding broker_inv_def inv_owner_def by auto
  have 2: "inv_unique (b\<lparr>callers := (callers b)(c \<mapsto> y)\<rparr>)"
    using assms unfolding broker_inv_def inv_unique_def by (auto split: if_splits)
  have 3: "inv_unsettled (b\<lparr>callers := (callers b)(c \<mapsto> y)\<rparr>)"
    using assms(1) unfolding broker_inv_def inv_unsettled_def by simp
  have 4: "inv_bound (b\<lparr>callers := (callers b)(c \<mapsto> y)\<rparr>)"
    using assms(1) unfolding broker_inv_def inv_bound_def by simp
  have 5: "inv_active (b\<lparr>callers := (callers b)(c \<mapsto> y)\<rparr>)"
    using assms(1) unfolding broker_inv_def inv_active_def by simp
  have 6: "inv_storing (b\<lparr>callers := (callers b)(c \<mapsto> y)\<rparr>)"
    using assms unfolding broker_inv_def inv_storing_def by (cases y) auto
  show ?thesis using 1 2 3 4 5 6 by (simp add: broker_inv_def)
qed

text \<open>An unsettled promise changes state.\<close>

lemma inv_set_promise_state:
  assumes "broker_inv b" and "promises b p = Some pm" and "unsettled (pm_state pm)"
  shows "broker_inv (b\<lparr>promises := (promises b)(p \<mapsto> pm\<lparr>pm_state := g\<rparr>)\<rparr>)"
proof -
  let ?b = "b\<lparr>promises := (promises b)(p \<mapsto> pm\<lparr>pm_state := g\<rparr>)\<rparr>"
  have 1: "inv_owner ?b"
    using assms(1) unfolding broker_inv_def inv_owner_def by simp
  have 2: "inv_unique ?b"
    using assms(1) unfolding broker_inv_def inv_unique_def by simp
  have 3: "inv_unsettled ?b"
    using assms unfolding broker_inv_def inv_unsettled_def by auto
  have 4: "inv_bound ?b"
    using assms unfolding broker_inv_def inv_bound_def by auto
  have 5: "inv_active ?b"
    using assms unfolding broker_inv_def inv_active_def by fastforce
  have 6: "inv_storing ?b"
    using assms unfolding broker_inv_def inv_storing_def by fastforce
  show ?thesis using 1 2 3 4 5 6 by (simp add: broker_inv_def)
qed

text \<open>The owner of a fulfilled promise starts writing the cache.\<close>

lemma inv_start_storing:
  assumes "broker_inv b" and "callers b c = Some (Awaiting p key useCache)"
    and "promises b p = Some pm" and "pm_state pm = Fulfilled r" and "cacheEnabled b"
  shows "broker_inv (b\<lparr>callers := (callers b)(c \<mapsto> Storing p key r)\<rparr>)"
proof -
  let ?b = "b\<lparr>callers := (callers b)(c \<mapsto> Storing p key r)\<rparr>"
  have own: "activeRequests b key = Some p"
    using assms(1,2) unfolding broker_inv_def inv_owner_def by force
  have 1: "inv_owner ?b"
    using assms(1) own unfolding broker_inv_def inv_owner_def by auto
  have uni: "\<And>c' x' key'. callers b c' = Some x' \<Longrightarrow> owned x' = Some (p, key') \<Longrightarrow> c' = c"
    using assms(1,2) unfolding broker_inv_def inv_unique_def
    by (metis owned.simps(1))
  have 2: "inv_unique ?b"
    unfolding inv_unique_def
  proof (intro allI impI)
    fix c1 c2 x1 x2 q k1 k2
    assume a: "callers ?b c1 = Some x1 \<and> callers ?b c2 = Some x2 \<and>
         owned x1 = Some (q, k1) \<and> owned x2 = Some (q, k2)"
    show "c1 = c2"
    proof (cases "c1 = c")
      case True
      then have "q = p" using a by auto
      then show ?thesis using a True uni [of c2 x2 k2] by (cases "c2 = c") auto
    next
      case False
      show ?thesis
      proof (cases "c2 = c")
        case True
        then have "q = p" using a by auto
        then show ?thesis using a False uni [of c1 x1 k1] by auto
      next
        case c2: False
        then have "callers b c1 = Some x1" "callers b c2 = Some x2"
          using a False by auto
        then show ?thesis
          using a assms(1) unfolding broker_inv_def inv_unique_def by blast
      qed
    qed
  qed
  have 3: "inv_unsettled ?b"
    using assms(1) unfolding broker_inv_def inv_unsettled_def by simp
  have 4: "inv_bound ?b"
    using assms(1) unfolding broker_inv_def inv_bound_def by simp
  have 5: "inv_active ?b"
    using assms(1) unfolding broker_inv_def inv_active_def by simp
  have 6: "inv_storing ?b"
    using assms unfolding broker_inv_def inv_storing_def by auto
  show ?thesis using 1 2 3 4 5 6 by (simp add: broker_inv_def)
qed

text \<open>The owner of a settled promise deletes the entry and ends.\<close>

lemma inv_finish:
  assumes "broker_inv b" and "callers b c = Some x" and "owned x = Some (p, key)"
    and "promises b p = Some pm" and "\<not> unsettled (pm_state pm)" and "owned y = None"
  shows "broker_inv (finish b c key y)"
proof -
  let ?b = "finish b c key y"
  have own: "activeRequests b key = Some p"
    using assms(1,2,3) unfolding broker_inv_def inv_owner_def by blast
  have uni: "\<And>c' x' key'. callers b c' = Some x' \<Longrightarrow> owned x' = Some (p, key') \<Longrightarrow> c' = c"
    using assms(1,2,3) unfolding broker_inv_def inv_unique_def by blast
  have others: "\<And>c' x' q. c' \<noteq> c \<Longrightarrow> callers b c' = Some x' \<Longrightarrow> owned x' \<noteq> Some (q, key)"
  proof
    fix c' x' q assume a: "c' \<noteq> c" "callers b c' = Some x'" "owned x' = Some (q, key)"
    then have "activeRequests b key = Some q"
      using assms(1) unfolding broker_inv_def inv_owner_def by blast
    then have "q = p" using own by simp
    then show False using a uni [of c' x' key] by simp
  qed
  have 1: "inv_owner ?b"
    unfolding inv_owner_def
  proof (intro allI impI)
    fix c' x' q k assume a: "callers ?b c' = Some x' \<and> owned x' = Some (q, k)"
    then have ne: "c' \<noteq> c" using assms(6) by (auto simp add: finish_def split: if_splits)
    then have old: "callers b c' = Some x'" using a by (simp add: finish_def)
    then have "k \<noteq> key" using others [OF ne old] a by auto
    moreover have "activeRequests b k = Some q"
      using old a assms(1) unfolding broker_inv_def inv_owner_def by blast
    ultimately show "activeRequests ?b k = Some q" by (simp add: finish_def)
  qed
  have 2: "inv_unique ?b"
    unfolding inv_unique_def
  proof (intro allI impI)
    fix c1 c2 x1 x2 q k1 k2
    assume a: "callers ?b c1 = Some x1 \<and> callers ?b c2 = Some x2 \<and>
         owned x1 = Some (q, k1) \<and> owned x2 = Some (q, k2)"
    then have "c1 \<noteq> c" "c2 \<noteq> c" using assms(6) by (auto simp add: finish_def split: if_splits)
    then have "callers b c1 = Some x1" "callers b c2 = Some x2"
      using a by (simp_all add: finish_def)
    then show "c1 = c2"
      using a assms(1) unfolding broker_inv_def inv_unique_def by blast
  qed
  have 3: "inv_unsettled ?b"
    unfolding inv_unsettled_def
  proof (intro allI impI)
    fix q qm assume a: "promises ?b q = Some qm \<and> unsettled (pm_state qm)"
    then have old: "promises b q = Some qm" by (simp add: finish_def)
    then have reg: "activeRequests b (pm_key qm) = Some q"
      using a assms(1) unfolding broker_inv_def inv_unsettled_def by blast
    have "pm_key qm \<noteq> key"
    proof
      assume "pm_key qm = key"
      then have "q = p" using reg own by simp
      then show False using old assms(4,5) a by simp
    qed
    then show "activeRequests ?b (pm_key qm) = Some q" using reg by (simp add: finish_def)
  qed
  have 4: "inv_bound ?b"
    using assms(1) unfolding broker_inv_def inv_bound_def by (simp add: finish_def)
  have 5: "inv_active ?b"
    using assms(1) unfolding broker_inv_def inv_active_def by (auto simp add: finish_def)
  have 6: "inv_storing ?b"
    using assms(1,6) unfolding broker_inv_def inv_storing_def
    by (cases y) (auto simp add: finish_def)
  show ?thesis using 1 2 3 4 5 6 by (simp add: broker_inv_def)
qed

text \<open>A call finds no entry and starts a generation.\<close>

lemma inv_enter_dedup:
  assumes "broker_inv b" and plain: "owns_nothing b c"
  shows "broker_inv (enter_dedup b c key useCache)"
proof (cases "activeRequests b key")
  case (Some p)
  have "broker_inv (b\<lparr>callers := (callers b)(c \<mapsto> Joined p)\<rparr>)"
    using assms by (intro inv_set_plain_caller) auto
  then show ?thesis using Some by (simp add: enter_dedup_def)
next
  case None
  let ?p = "next_promise b"
  let ?b = "enter_dedup b c key useCache"
  have fresh: "promises b ?p = None"
    using assms(1) unfolding broker_inv_def inv_bound_def by (cases "promises b ?p") auto
  have noref: "\<And>k. activeRequests b k \<noteq> Some ?p"
    using assms(1) fresh unfolding broker_inv_def inv_active_def by fastforce
  have noown: "\<And>c' x k. callers b c' = Some x \<Longrightarrow> owned x \<noteq> Some (?p, k)"
    using assms(1) noref unfolding broker_inv_def inv_owner_def by fastforce
  have nokey: "\<And>c' x q. callers b c' = Some x \<Longrightarrow> owned x \<noteq> Some (q, key)"
    using assms(1) None unfolding broker_inv_def inv_owner_def by fastforce
  have cs: "callers ?b = (callers b)(c \<mapsto> Awaiting ?p key useCache)"
    and ar: "activeRequests ?b = (activeRequests b)(key \<mapsto> ?p)"
    and np: "next_promise ?b = ?p + 1" and ce: "cacheEnabled ?b = cacheEnabled b"
    using None by (simp_all add: enter_dedup_def Let_def)
  define g where "g = (if 0 < maxRetries b then Posting 0
                       else Failed (failure_message (maxRetries b) ''No attempts made''))"
  have ps': "promises ?b = (promises b)(?p \<mapsto> \<lparr>pm_key = key, pm_state = g\<rparr>)"
    using None by (simp add: enter_dedup_def Let_def g_def)
  have 1: "inv_owner ?b"
    unfolding inv_owner_def
  proof (intro allI impI)
    fix c' x' q k assume a: "callers ?b c' = Some x' \<and> owned x' = Some (q, k)"
    show "activeRequests ?b k = Some q"
    proof (cases "c' = c")
      case True
      then show ?thesis using a by (auto simp add: cs ar)
    next
      case False
      then have old: "callers b c' = Some x'" using a by (simp add: cs)
      then have "k \<noteq> key" using nokey [OF old] a by auto
      moreover have "activeRequests b k = Some q"
        using old a assms(1) unfolding broker_inv_def inv_owner_def by blast
      ultimately show ?thesis by (simp add: ar)
    qed
  qed
  have 2: "inv_unique ?b"
    unfolding inv_unique_def
  proof (intro allI impI)
    fix c1 c2 x1 x2 q k1 k2
    assume a: "callers ?b c1 = Some x1 \<and> callers ?b c2 = Some x2 \<and>
         owned x1 = Some (q, k1) \<and> owned x2 = Some (q, k2)"
    show "c1 = c2"
    proof (cases "c1 = c")
      case True
      then have q: "q = ?p" using a by (auto simp add: cs)
      show ?thesis
      proof (cases "c2 = c")
        case False
        then have "callers b c2 = Some x2" using a by (simp add: cs)
        then show ?thesis using noown [of c2 x2 k2] a q by simp
      qed (simp add: True)
    next
      case False
      then have o1: "callers b c1 = Some x1" using a by (simp add: cs)
      show ?thesis
      proof (cases "c2 = c")
        case True
        then have "q = ?p" using a by (auto simp add: cs)
        then show ?thesis using noown [OF o1, of k1] a by simp
      next
        case c2: False
        then have "callers b c2 = Some x2" using a by (simp add: cs)
        then show ?thesis
          using o1 a assms(1) unfolding broker_inv_def inv_unique_def by blast
      qed
    qed
  qed
  have 3: "inv_unsettled ?b"
    unfolding inv_unsettled_def
  proof (intro allI impI)
    fix q qm assume a: "promises ?b q = Some qm \<and> unsettled (pm_state qm)"
    show "activeRequests ?b (pm_key qm) = Some q"
    proof (cases "q = ?p")
      case True
      then show ?thesis using a by (auto simp add: ps' ar)
    next
      case False
      then have old: "promises b q = Some qm" using a by (simp add: ps')
      then have reg: "activeRequests b (pm_key qm) = Some q"
        using a assms(1) unfolding broker_inv_def inv_unsettled_def by blast
      then have "pm_key qm \<noteq> key" using None by auto
      then show ?thesis using reg by (simp add: ar)
    qed
  qed
  have 4: "inv_bound ?b"
    using assms(1) unfolding broker_inv_def inv_bound_def
    by (auto simp add: ps' np split: if_splits)
  have 5: "inv_active ?b"
    unfolding inv_active_def
  proof (intro allI impI)
    fix k q assume a: "activeRequests ?b k = Some q"
    show "\<exists>pm. promises ?b q = Some pm \<and> pm_key pm = k"
    proof (cases "k = key")
      case True
      then show ?thesis using a by (auto simp add: ar ps')
    next
      case False
      then have old: "activeRequests b k = Some q" using a by (simp add: ar)
      then obtain pm where "promises b q = Some pm" "pm_key pm = k"
        using assms(1) unfolding broker_inv_def inv_active_def by blast
      moreover have "q \<noteq> ?p" using noref old by auto
      ultimately show ?thesis by (simp add: ps')
    qed
  qed
  have 6: "inv_storing ?b"
    unfolding inv_storing_def
  proof (intro allI impI)
    fix c' q k r assume a: "callers ?b c' = Some (Storing q k r)"
    then have ne: "c' \<noteq> c" by (auto simp add: cs split: if_splits)
    then have old: "callers b c' = Some (Storing q k r)" using a by (simp add: cs)
    then have st: "cacheEnabled b \<and> (\<exists>pm. promises b q = Some pm \<and> pm_state pm = Fulfilled r)"
      using assms(1) unfolding broker_inv_def inv_storing_def by blast
    moreover have "q \<noteq> ?p" using st fresh by auto
    ultimately show "cacheEnabled ?b \<and> (\<exists>pm. promises ?b q = Some pm \<and> pm_state pm = Fulfilled r)"
      by (simp add: ps' ce)
  qed
  show ?thesis using 1 2 3 4 5 6 by (simp add: broker_inv_def)
qed

lemma broker_inv_posted [simp]: "broker_inv (b\<lparr>posted := x\<rparr>) = broker_inv b"
  by (simp add: broker_inv_def inv_defs)

lemma broker_inv_clock [simp]: "broker_inv (b\<lparr>clock := x\<rparr>) = broker_inv b"
  by (simp add: broker_inv_def inv_defs)

lemma broker_inv_redis [simp]: "broker_inv (b\<lparr>redis := x\<rparr>) = broker_inv b"
  by (simp add: broker_inv_def inv_defs)

lemma finish_redis: "finish (b\<lparr>redis := x\<rparr>) c key y = (finish b c key y)\<lparr>redis := x\<rparr>"
  by (simp add: finish_def)

lemma broker_inv_step:
  assumes "broker_inv b" and "step b ev = Some b'"
  shows "broker_inv b'"
proof (cases ev)
  case (Call c key useCache)
  then have none: "callers b c = None"
    using assms(2) by (auto split: option.splits)
  show ?thesis
  proof (cases "cacheEnabled b \<and> useCache")
    case True
    then have "b' = b\<lparr>callers := (callers b)(c \<mapsto> CacheLookup key useCache)\<rparr>"
      using assms(2) Call none by auto
    then show ?thesis using assms(1) none by (simp add: inv_set_plain_caller owns_nothing_def)
  next
    case False
    then have "b' = enter_dedup b c key useCache"
      using assms(2) Call none by auto
    then show ?thesis using assms(1) none by (simp add: inv_enter_dedup owns_nothing_def)
  qed
next
  case (CacheReply c)
  then obtain key useCache where cl: "callers b c = Some (CacheLookup key useCache)"
    using assms(2) by (auto split: option.splits caller.splits)
  show ?thesis
  proof (cases "cache_hit b key")
    case None
    then have "b' = enter_dedup b c key useCache"
      using assms(2) CacheReply cl by simp
    then show ?thesis using assms(1) cl by (simp add: inv_enter_dedup owns_nothing_def)
  next
    case (Some cached)
    then have "b' = b\<lparr>callers := (callers b)(c \<mapsto> Returned cached)\<rparr>"
      using assms(2) CacheReply cl by simp
    then show ?thesis using assms(1) cl by (simp add: inv_set_plain_caller owns_nothing_def)
  qed
next
  case (CacheError c e)
  then obtain key useCache where cl: "callers b c = Some (CacheLookup key useCache)"
    using assms(2) by (auto split: option.splits caller.splits)
  then have "b' = b\<lparr>callers := (callers b)(c \<mapsto> Thrown e)\<rparr>"
    using assms(2) CacheError by simp
  then show ?thesis using assms(1) cl by (simp add: inv_set_plain_caller owns_nothing_def)
next
  case (BackendReply p reply)
  then obtain pm attempt where pm: "promises b p = Some pm" "pm_state pm = Posting attempt"
    using assms(2) by (auto split: option.splits generation.splits)
  then obtain g where "b' = b\<lparr>promises := (promises b)(p \<mapsto> pm\<lparr>pm_state := g\<rparr>)\<rparr>"
    using assms(2) BackendReply by auto
  then show ?thesis using assms(1) pm by (simp add: inv_set_promise_state)
next
  case (Wake p)
  then obtain pm attempt e until where pm: "promises b p = Some pm" "pm_state pm = Sleeping attempt e until"
    using assms(2) by (auto split: option.splits generation.splits)
  then have "b' = (b\<lparr>promises := (promises b)(p \<mapsto> pm\<lparr>pm_state := Posting (attempt + 1)\<rparr>)\<rparr>)
                    \<lparr>posted := posted b @ [pm_key pm]\<rparr>"
    using assms(2) Wake by (auto split: if_splits)
  then show ?thesis using assms(1) pm by (simp add: inv_set_promise_state)
next
  case (Resume c)
  then consider (own) p key useCache where "callers b c = Some (Awaiting p key useCache)"
    | (join) p where "callers b c = Some (Joined p)"
    using assms(2) by (auto split: option.splits caller.splits)
  then show ?thesis
  proof cases
    case own
    then obtain pm where pm: "promises b p = Some pm" "\<not> unsettled (pm_state pm)"
      using assms(2) Resume by (auto split: option.splits generation.splits)
    show ?thesis
    proof (cases "pm_state pm")
      case (Fulfilled r)
      show ?thesis
      proof (cases "cacheEnabled b \<and> useCache")
        case True
        then have "b' = b\<lparr>callers := (callers b)(c \<mapsto> Storing p key r)\<rparr>"
          using assms(2) Resume own pm Fulfilled by simp
        then show ?thesis
          using assms(1) own pm Fulfilled True by (simp add: inv_start_storing)
      next
        case False
        then have "b' = finish b c key (Returned r)"
          using assms(2) Resume own pm Fulfilled by auto
        then show ?thesis
          using assms(1) own pm inv_finish [of b c "Awaiting p key useCache" p key pm "Returned r"]
          by simp
      qed
    next
      case (Failed e)
      then have "b' = finish b c key (Thrown e)"
        using assms(2) Resume own pm by simp
      then show ?thesis
        using assms(1) own pm inv_finish [of b c "Awaiting p key useCache" p key pm "Thrown e"]
        by simp
    qed (use pm in auto)
  next
    case join
    then obtain y where "b' = b\<lparr>callers := (callers b)(c \<mapsto> y)\<rparr>" "owned y = None"
      using assms(2) Resume by (auto split: option.splits generation.splits)
    then show ?thesis using assms(1) join by (simp add: inv_set_plain_caller owns_nothing_def)
  qed
next
  case (StoreReply c)
  then obtain p key r where st: "callers b c = Some (Storing p key r)"
    using assms(2) by (auto split: option.splits caller.splits)
  then obtain pm where pm: "promises b p = Some pm" "pm_state pm = Fulfilled r"
    using assms(1) unfolding broker_inv_def inv_storing_def by blast
  have "b' = (finish b c key (Returned r))\<lparr>redis := (redis b)(key \<mapsto> (r, clock b + 3600000))\<rparr>"
    using assms(2) StoreReply st by (simp add: finish_redis)
  then show ?thesis
    using assms(1) st pm inv_finish [of b c "Storing p key r" p key pm "Returned r"] by simp
next
  case (StoreError c e)
  then obtain p key r where st: "callers b c = Some (Storing p key r)"
    using assms(2) by (auto split: option.splits caller.splits)
  then obtain pm where pm: "promises b p = Some pm" "pm_state pm = Fulfilled r"
    using assms(1) unfolding broker_inv_def inv_storing_def by blast
  have "b' = finish b c key (Thrown e)"
    using assms(2) StoreError st by simp
  then show ?thesis
    using assms(1) st pm inv_finish [of b c "Storing p key r" p key pm "Thrown e"] by simp
next
  case (Tick d)
  then show ?thesis using assms by auto
qed

lemma broker_inv_run:
  "broker_inv b \<Longrightarrow> run b evs = Some b' \<Longrightarrow> broker_inv b'"
  by (induction evs arbitrary: b) (auto split: option.splits dest: broker_inv_step)

lemma run_append:
  "run b (evs @ evs') = (case run b evs of None \<Rightarrow> None | Some b' \<Rightarrow> run b' evs')"
  by (induction evs arbitrary: b) (auto split: option.splits)

lemma posting_unique:
  assumes "broker_inv b" and "posting b key p" and "posting b key q"
  shows "p = q"
proof -
  obtain pm where pm: "promises b p = Some pm" "pm_key pm = key" "unsettled (pm_state pm)"
    using assms(2) by (auto simp add: posting_def split: option.splits generation.splits)
  obtain qm where qm: "promises b q = Some qm" "pm_key qm = key" "unsettled (pm_state qm)"
    using assms(3) by (auto simp add: posting_def split: option.splits generation.splits)
  have "activeRequests b (pm_key pm) = Some p" "activeRequests b (pm_key qm) = Some q"
    using assms(1) pm qm unfolding broker_inv_def inv_unsettled_def by blast+
  then show ?thesis using pm(2) qm(2) by simp
qed

lemma posting_registered:
  assumes "broker_inv b" and "posting b key p"
  shows "activeRequests b key = Some p"
proof -
  obtain pm where pm: "promises b p = Some pm" "pm_key pm = key" "unsettled (pm_state pm)"
    using assms(2) by (auto simp add: posting_def split: option.splits generation.splits)
  then have "activeRequests b (pm_key pm) = Some p"
    using assms(1) unfolding broker_inv_def inv_unsettled_def by blast
  then show ?thesis using pm(2) by simp
qed

lemma filter_at_most_one:
  assumes "distinct xs" and "\<And>x y. x \<in> set xs \<Longrightarrow> y \<in> set xs \<Longrightarrow> P x \<Longrightarrow> P y \<Longrightarrow> x = y"
  shows "length (filter P xs) \<le> 1"
  using assms
proof (induction xs)
  case Nil
  then show ?case by simp
next
  case (Cons x xs)
  show ?case
  proof (cases "P x")
    case True
    have "filter P xs = []"
    proof (rule ccontr)
      assume "filter P xs \<noteq> []"
      then obtain y where y: "y \<in> set xs" "P y"
        by (metis filter_False)
      then have "x = y" using Cons.prems(2) [of x y] True by simp
      then show False using Cons.prems(1) y by simp
    qed
    then show ?thesis using True by simp
  next
    case False
    then show ?thesis using Cons by simp
  qed
qed

lemma in_flight_at_most_one:
  "broker_inv b \<Longrightarrow> length (in_flight b key) \<le> 1"
  unfolding in_flight_def
  by (rule filter_at_most_one) (auto dest: posting_unique)

lemma in_flight_member:
  "p \<in> set (in_flight b key) \<Longrightarrow> posting b key p"
  by (simp add: in_flight_def)

lemma posts_for_enter_dedup:
  "activeRequests b key \<noteq> None \<Longrightarrow> posts_for (enter_dedup b c key' useCache) key = posts_for b key"
  by (auto simp add: enter_dedup_def posts_for_def Let_def split: option.splits)

lemma no_post_while_in_flight:
  assumes "broker_inv b" and "in_flight b key \<noteq> []" and "step b ev = Some b'"
  shows "posts_for b' key = posts_for b key"
proof -
  obtain p where "p \<in> set (in_flight b key)"
    using assms(2) by (cases "in_flight b key") auto
  then have p: "posting b key p" by (rule in_flight_member)
  then have reg: "activeRequests b key = Some p"
    using assms(1) by (rule posting_registered [rotated])
  show ?thesis
  proof (cases ev)
    case (Call c k u)
    have "posts_for (enter_dedup b c k u) key = posts_for b key"
      using reg by (simp add: posts_for_enter_dedup)
    moreover have "posts_for (b\<lparr>callers := (callers b)(c \<mapsto> CacheLookup k u)\<rparr>) key = posts_for b key"
      by (simp add: posts_for_def)
    ultimately show ?thesis
      using assms(3) Call by (auto split: option.splits if_splits)
  next
    case (CacheReply c)
    have "\<And>k u. posts_for (enter_dedup b c k u) key = posts_for b key"
      using reg by (simp add: posts_for_enter_dedup)
    moreover have "\<And>r. posts_for (b\<lparr>callers := (callers b)(c \<mapsto> Returned r)\<rparr>) key = posts_for b key"
      by (simp add: posts_for_def)
    ultimately show ?thesis
      using assms(3) CacheReply by (auto split: option.splits caller.splits)
  next
    case (Wake q)
    then obtain qm attempt e until where qm: "promises b q = Some qm" "pm_state qm = Sleeping attempt e until"
      and b': "posted b' = posted b @ [pm_key qm]"
      using assms(3) by (auto split: option.splits generation.splits if_splits)
    have "pm_key qm \<noteq> key"
    proof
      assume "pm_key qm = key"
      moreover have "activeRequests b (pm_key qm) = Some q"
        using assms(1) qm unfolding broker_inv_def inv_unsettled_def by fastforce
      ultimately have "activeRequests b key = Some q" by simp
      then have "q = p" using reg by simp
      then show False using p qm by (simp add: posting_def)
    qed
    then show ?thesis using b' by (simp add: posts_for_def)
  next
    case (Resume c)
    then show ?thesis
      using assms(3)
      by (auto simp add: posts_for_def finish_def split: option.splits caller.splits generation.splits if_splits)
  qed (use assms(3) in \<open>auto simp add: posts_for_def finish_def split: option.splits caller.splits generation.splits\<close>)
qed

lemma joins_generation_in_flight:
  assumes "broker_inv b" and "in_flight b key = [p]"
  shows "enter_dedup b c key useCache = b\<lparr>callers := (callers b)(c \<mapsto> Joined p)\<rparr>"
proof -
  have "p \<in> set (in_flight b key)" using assms(2) by simp
  then have "activeRequests b key = Some p"
    using assms(1) by (intro posting_registered in_flight_member)
  then show ?thesis by (simp add: enter_dedup_def)
qed

lemma callers_enter_dedup_other:
  "c' \<noteq> c \<Longrightarrow> callers (enter_dedup b c key useCache) c' = callers b c'"
  by (simp add: enter_dedup_def Let_def split: option.splits)

lemma step_other_caller:
  assumes "step b ev = Some b'" and "actor ev \<noteq> Some c"
  shows "callers b' c = callers b c"
proof (cases ev)
  case (Call c' key useCache)
  then show ?thesis
    using assms by (auto simp add: callers_enter_dedup_other split: option.splits if_splits)
next
  case (CacheReply c')
  then show ?thesis
    using assms by (auto simp add: callers_enter_dedup_other split: option.splits caller.splits)
next
  case (Resume c')
  then show ?thesis
    using assms
    by (auto simp add: finish_def split: option.splits caller.splits generation.splits if_splits)
qed (use assms in \<open>auto simp add: finish_def split: option.splits caller.splits generation.splits if_splits\<close>)

lemma step_ended_stays:
  assumes "step b ev = Some b'" and "ending b c = Some out"
  shows "callers b' c = callers b c"
proof (cases "actor ev = Some c")
  case False
  then show ?thesis using assms(1) by (rule step_other_caller [rotated])
next
  case True
  have "callers b c = Some (Returned (projr out)) \<or> callers b c = Some (Thrown (projl out))"
    using assms(2) by (auto simp add: ending_def split: option.splits caller.splits)
  then show ?thesis
    using True assms(1) by (cases ev) (auto split: option.splits caller.splits)
qed

lemma promises_enter_dedup:
  "promises b p \<noteq> None \<Longrightarrow> broker_inv b \<Longrightarrow> promises (enter_dedup b c key useCache) p = promises b p"
  unfolding broker_inv_def inv_bound_def
  by (auto simp add: enter_dedup_def Let_def split: option.splits)

lemma step_settled_stays:
  assumes "broker_inv b" and "step b ev = Some b'" and "settlement b p = Some out"
  shows "settlement b' p = Some out"
proof -
  obtain pm where pm: "promises b p = Some pm" "\<not> unsettled (pm_state pm)"
    using assms(3) by (auto simp add: settlement_def split: option.splits generation.splits)
  have "promises b' p = promises b p"
  proof (cases ev)
    case (Call c key useCache)
    then show ?thesis
      using assms(1,2) pm by (auto simp add: promises_enter_dedup split: option.splits if_splits)
  next
    case (CacheReply c)
    then show ?thesis
      using assms(1,2) pm by (auto simp add: promises_enter_dedup split: option.splits caller.splits)
  next
    case (BackendReply q reply)
    then show ?thesis
      using assms(2) pm by (auto split: option.splits generation.splits)
  next
    case (Wake q)
    then show ?thesis
      using assms(2) pm by (auto split: option.splits generation.splits if_splits)
  qed (use assms(2) in \<open>auto simp add: finish_def split: option.splits caller.splits generation.splits if_splits\<close>)
  then show ?thesis using assms(3) by (simp add: settlement_def)
qed

text \<open>A call that joined a promise stays joined until it ends the way the promise settles.\<close>

lemma served_step:
  assumes "broker_inv b" and "step b ev = Some b'" and "served b c p"
  shows "served b' c p"
proof (cases "callers b c = Some (Joined p)")
  case False
  then obtain out where out: "ending b c = Some out" "settlement b p = Some out"
    using assms(3) by (auto simp add: served_def)
  then have "callers b' c = callers b c" "settlement b' p = Some out"
    using assms(1,2) by (auto intro: step_ended_stays step_settled_stays)
  then show ?thesis using out by (auto simp add: served_def ending_def)
next
  case True
  show ?thesis
  proof (cases "actor ev = Some c")
    case False
    then have "callers b' c = callers b c" using assms(2) by (rule step_other_caller [rotated])
    then show ?thesis using True by (simp add: served_def)
  next
    case act: True
    then have ev: "ev = Resume c"
      using assms(2) True by (cases ev) (auto split: option.splits caller.splits)
    then obtain out where "settlement b p = Some out" "ending b' c = Some out"
      using assms(2) True
      by (auto simp add: settlement_def ending_def split: option.splits generation.splits)
    moreover have "settlement b' p = Some out"
      using assms(1,2) calculation(1) by (rule step_settled_stays)
    ultimately show ?thesis by (auto simp add: served_def)
  qed
qed

lemma served_run:
  "broker_inv b \<Longrightarrow> run b evs = Some b' \<Longrightarrow> served b c p \<Longrightarrow> served b' c p"
proof (induction evs arbitrary: b)
  case Nil
  then show ?case by simp
next
  case (Cons ev evs)
  then obtain b1 where b1: "step b ev = Some b1" "run b1 evs = Some b'"
    by (auto split: option.splits)
  then show ?case
    using Cons.IH [of b1] Cons.prems broker_inv_step [of b ev b1] served_step [of b ev b1 c p]
    by blast
qed

text \<open>The call that made a promise ends the way it settles, or with the error of the cache write.\<close>

lemma cacheEnabled_step: "step b ev = Some b' \<Longrightarrow> cacheEnabled b' = cacheEnabled b"
  by (cases ev)
     (auto simp add: enter_dedup_def finish_def Let_def
           split: option.splits caller.splits generation.splits if_splits)

lemma owner_served_step:
  assumes "broker_inv b" and "step b ev = Some b'" and "owner_served b c p useCache"
  shows "owner_served b' c p useCache"
proof -
  have ce: "cacheEnabled b' = cacheEnabled b" using assms(2) by (rule cacheEnabled_step)
  consider (await) key where "callers b c = Some (Awaiting p key useCache)"
    | (store) key r where "callers b c = Some (Storing p key r)" "cacheEnabled b" "useCache"
    | (ended) out where "ending b c = Some out"
        "settlement b p = Some out
            \<or> (\<exists>r e. settlement b p = Some (Inr r) \<and> out = Inl e \<and> cacheEnabled b \<and> useCache)"
    using assms(3) by (auto simp add: owner_served_def)
  then show ?thesis
  proof cases
    case ended
    then have "callers b' c = callers b c"
      using assms(2) by (auto intro: step_ended_stays)
    then have "ending b' c = Some out" using ended(1) by (simp add: ending_def)
    moreover have "settlement b' p = Some out
            \<or> (\<exists>r e. settlement b' p = Some (Inr r) \<and> out = Inl e \<and> cacheEnabled b' \<and> useCache)"
      using ended(2) assms(1,2) ce by (auto dest: step_settled_stays)
    ultimately show ?thesis by (auto simp add: owner_served_def)
  next
    case await
    show ?thesis
    proof (cases "actor ev = Some c")
      case False
      then have "callers b' c = callers b c" using assms(2) by (rule step_other_caller [rotated])
      then show ?thesis using await by (auto simp add: owner_served_def)
    next
      case True
      then have ev: "ev = Resume c"
        using assms(2) await by (cases ev) (auto split: option.splits caller.splits)
      then obtain out where out: "settlement b p = Some out"
        using assms(2) await
        by (auto simp add: settlement_def split: option.splits generation.splits)
      then have out': "settlement b' p = Some out"
        using assms(1,2) by (auto dest: step_settled_stays)
      have "(\<exists>r. callers b' c = Some (Storing p key r) \<and> cacheEnabled b \<and> useCache)
            \<or> ending b' c = Some out"
        using assms(2) await ev out
        by (auto simp add: settlement_def ending_def finish_def
            split: option.splits generation.splits if_splits)
      then show ?thesis using out' ce by (auto simp add: owner_served_def)
    qed
  next
    case store
    then obtain pm where pm: "promises b p = Some pm" "pm_state pm = Fulfilled r"
      using assms(1) unfolding broker_inv_def inv_storing_def by blast
    then have "settlement b p = Some (Inr r)" by (simp add: settlement_def)
    then have set': "settlement b' p = Some (Inr r)"
      using assms(1,2) by (auto dest: step_settled_stays)
    show ?thesis
    proof (cases "actor ev = Some c")
      case False
      then have "callers b' c = callers b c" using assms(2) by (rule step_other_caller [rotated])
      then show ?thesis using store ce by (auto simp add: owner_served_def)
    next
      case True
      then have "ending b' c = Some (Inr r) \<or> (\<exists>e. ending b' c = Some (Inl e))"
        using assms(2) store
        by (cases ev) (auto simp add: ending_def finish_def split: option.splits caller.splits)
      then show ?thesis using set' store ce by (auto simp add: owner_served_def)
    qed
  qed
qed

lemma owner_served_run:
  "broker_inv b \<Longrightarrow> run b evs = Some b' \<Longrightarrow> owner_served b c p u \<Longrightarrow> owner_served b' c p u"
proof (induction evs arbitrary: b)
  case Nil
  then show ?case by simp
next
  case (Cons ev evs)
  then obtain b1 where b1: "step b ev = Some b1" "run b1 evs = Some b'"
    by (auto split: option.splits)
  then show ?case
    using Cons.IH [of b1] Cons.prems broker_inv_step [of b ev b1] owner_served_step [of b ev b1 c p u]
    by blast
qed

text \<open>A live cache entry stays until it expires.\<close>

lemma clock_step: "step b ev = Some b' \<Longrightarrow> clock b \<le> clock b'"
  by (cases ev)
     (auto simp add: enter_dedup_def finish_def Let_def
           split: option.splits caller.splits generation.splits if_splits)

lemma redis_enter_dedup [simp]: "redis (enter_dedup b c key u) = redis b"
  by (simp add: enter_dedup_def Let_def split: option.splits)

lemma callers_enter_dedup_same:
  "\<exists>p. callers (enter_dedup b c key u) c = Some (Joined p)
       \<or> callers (enter_dedup b c key u) c = Some (Awaiting p key u)"
  by (auto simp add: enter_dedup_def Let_def split: option.splits)

lemma entry_kept_step:
  assumes "cacheEnabled b" and "entry_kept key r expiry b" and "step b ev = Some b'"
  shows "entry_kept key r expiry b'"
  unfolding entry_kept_def
proof (intro impI)
  assume live': "clock b' < expiry"
  then have live: "clock b < expiry" using clock_step [OF assms(3)] by simp
  then have red: "redis b key = Some (r, expiry)"
    and noaw: "\<And>c p. callers b c \<noteq> Some (Awaiting p key True)"
    and nost: "\<And>c p r'. callers b c \<noteq> Some (Storing p key r')"
    using assms(2) by (auto simp add: entry_kept_def)
  have hit: "cache_hit b key = Some r" using red live by (simp add: cache_hit_def)
  have others: "\<And>c. actor ev \<noteq> Some c \<Longrightarrow> callers b' c = callers b c"
    using assms(3) by (rule step_other_caller)
  have redis': "redis b' key = Some (r, expiry)"
  proof (cases ev)
    case (StoreReply c)
    then obtain p k r' where st: "callers b c = Some (Storing p k r')"
      using assms(3) by (auto split: option.splits caller.splits)
    then have "k \<noteq> key" using nost [of c p r'] by auto
    then show ?thesis using assms(3) StoreReply st red by (auto simp add: finish_def)
  qed (use assms(3) red in \<open>auto simp add: finish_def split: option.splits caller.splits generation.splits if_splits\<close>)
  have acted: "\<And>c. actor ev = Some c \<Longrightarrow>
      (\<forall>p. callers b' c \<noteq> Some (Awaiting p key True)) \<and> (\<forall>p r'. callers b' c \<noteq> Some (Storing p key r'))"
  proof -
    fix c assume act: "actor ev = Some c"
    show "(\<forall>p. callers b' c \<noteq> Some (Awaiting p key True)) \<and> (\<forall>p r'. callers b' c \<noteq> Some (Storing p key r'))"
    proof (cases ev)
      case (Call c' k u)
      then have c': "c' = c" using act by simp
      show ?thesis
      proof (cases u)
        case True
        then show ?thesis using assms(1,3) Call c' by (auto split: option.splits)
      next
        case False
        then have "b' = enter_dedup b c k False"
          using assms(3) Call c' by (auto split: option.splits)
        then show ?thesis using callers_enter_dedup_same [of b c k False] by auto
      qed
    next
      case (CacheReply c')
      then have c': "c' = c" using act by simp
      then obtain k u where cl: "callers b c = Some (CacheLookup k u)"
        using assms(3) CacheReply by (auto split: option.splits caller.splits)
      show ?thesis
      proof (cases "k = key")
        case True
        then show ?thesis using assms(3) CacheReply c' cl hit by auto
      next
        case False
        then have "(\<exists>cached. b' = b\<lparr>callers := (callers b)(c \<mapsto> Returned cached)\<rparr>)
                   \<or> b' = enter_dedup b c k u"
          using assms(3) CacheReply c' cl by (auto split: option.splits)
        then show ?thesis using False callers_enter_dedup_same [of b c k u] by auto
      qed
    next
      case (Resume c')
      then have c': "c' = c" using act by simp
      then consider (own) p k u where "callers b c = Some (Awaiting p k u)"
        | (join) p where "callers b c = Some (Joined p)"
        using assms(3) Resume by (auto split: option.splits caller.splits)
      then show ?thesis
      proof cases
        case own
        then have "k \<noteq> key \<or> \<not> u" using noaw [of c p] by auto
        then show ?thesis
          using assms(3) Resume c' own
          by (auto simp add: finish_def split: option.splits generation.splits if_splits)
      next
        case join
        then show ?thesis
          using assms(3) Resume c'
          by (auto split: option.splits generation.splits if_splits)
      qed
    qed (use assms(3) act in \<open>auto simp add: finish_def split: option.splits caller.splits\<close>)
  qed
  have "\<And>c p. callers b' c \<noteq> Some (Awaiting p key True)"
    "\<And>c p r'. callers b' c \<noteq> Some (Storing p key r')"
    using acted others noaw nost by metis+
  then show "redis b' key = Some (r, expiry) \<and>
        (\<forall>c p. callers b' c \<noteq> Some (Awaiting p key True)) \<and>
        (\<forall>c p r'. callers b' c \<noteq> Some (Storing p key r'))"
    using redis' by blast
qed

lemma entry_kept_run:
  "cacheEnabled b \<Longrightarrow> entry_kept key r expiry b \<Longrightarrow> run b evs = Some b' \<Longrightarrow>
   entry_kept key r expiry b'"
proof (induction evs arbitrary: b)
  case Nil
  then show ?case by simp
next
  case (Cons ev evs)
  then obtain b1 where b1: "step b ev = Some b1" "run b1 evs = Some b'"
    by (auto split: option.splits)
  then show ?case
    using Cons.IH [of b1] Cons.prems entry_kept_step [of b key r expiry ev b1] cacheEnabled_step [of b ev b1]
    by blast
qed

lemma entry_kept_after_store:
  assumes "broker_inv b" and "callers b c = Some (Storing p key r)"
    and "step b (StoreReply c) = Some b'"
  shows "entry_kept key r (clock b + 3600000) b'"
proof -
  have b': "b' = finish (b\<lparr>redis := (redis b)(key \<mapsto> (r, clock b + 3600000))\<rparr>) c key (Returned r)"
    using assms(2,3) by simp
  have own: "activeRequests b key = Some p"
    using assms(1,2) unfolding broker_inv_def inv_owner_def by force
  have none: "\<And>c' x q. c' \<noteq> c \<Longrightarrow> callers b c' = Some x \<Longrightarrow> owned x \<noteq> Some (q, key)"
  proof
    fix c' x q assume a: "c' \<noteq> c" "callers b c' = Some x" "owned x = Some (q, key)"
    then have "activeRequests b key = Some q"
      using assms(1) unfolding broker_inv_def inv_owner_def by blast
    then have "q = p" using own by simp
    then have "c' = c"
      using a assms(1,2) unfolding broker_inv_def inv_unique_def
      by (metis owned.simps(2))
    then show False using a by simp
  qed
  have "\<And>c' q. callers b' c' \<noteq> Some (Awaiting q key True)"
  proof
    fix c' q assume "callers b' c' = Some (Awaiting q key True)"
    then have "c' \<noteq> c" "callers b c' = Some (Awaiting q key True)"
      using b' by (auto simp add: finish_def split: if_splits)
    then show False using none [of c' "Awaiting q key True" q] by simp
  qed
  moreover have "\<And>c' q r'. callers b' c' \<noteq> Some (Storing q key r')"
  proof
    fix c' q r' assume "callers b' c' = Some (Storing q key r')"
    then have "c' \<noteq> c" "callers b c' = Some (Storing q key r')"
      using b' by (auto simp add: finish_def split: if_splits)
    then show False using none [of c' "Storing q key r'" q] by simp
  qed
  moreover have "redis b' key = Some (r, clock b + 3600000)"
    using b' by (simp add: finish_def)
  ultimately show ?thesis by (simp add: entry_kept_def)
qed

lemma run_exec: "all_enabled b evs \<Longrightarrow> run b evs = Some (exec b evs)"
  by (induction evs arbitrary: b) (auto simp add: happens_def advance_def split: option.splits)

lemma exec_append: "exec b (evs @ evs') = exec (exec b evs) evs'"
  by (induction evs arbitrary: b) auto

lemma step_exec: "all_enabled b [ev] \<Longrightarrow> step b ev = Some (exec b [ev])"
  by (auto simp add: happens_def advance_def split: option.splits)

lemma cacheEnabled_run: "run b evs = Some b' \<Longrightarrow> cacheEnabled b' = cacheEnabled b"
  by (induction evs arbitrary: b) (auto split: option.splits dest: cacheEnabled_step)
subsection \<open>Retries of one generation\<close>

lemma maxRetries_step: "step b ev = Some b' \<Longrightarrow> maxRetries b' = maxRetries b"
  by (cases ev)
     (auto simp add: enter_dedup_def finish_def Let_def
           split: option.splits caller.splits generation.splits if_splits)

lemma maxRetries_run: "run b evs = Some b' \<Longrightarrow> maxRetries b' = maxRetries b"
  by (induction evs arbitrary: b) (auto simp add: maxRetries_step split: option.splits)

lemma settlement_run:
  "broker_inv b \<Longrightarrow> run b evs = Some b' \<Longrightarrow> settlement b p = Some out \<Longrightarrow>
   settlement b' p = Some out"
proof (induction evs arbitrary: b)
  case Nil
  then show ?case by simp
next
  case (Cons ev evs)
  then obtain b1 where b1: "step b ev = Some b1" "run b1 evs = Some b'"
    by (auto split: option.splits)
  then show ?case
    using Cons.IH [of b1] Cons.prems broker_inv_step [of b ev b1] step_settled_stays [of b ev b1 p out]
    by blast
qed

lemma ending_run:
  "run b evs = Some b' \<Longrightarrow> ending b c = Some out \<Longrightarrow> ending b' c = Some out"
proof (induction evs arbitrary: b)
  case Nil
  then show ?case by simp
next
  case (Cons ev evs)
  then obtain b1 where b1: "step b ev = Some b1" "run b1 evs = Some b'"
    by (auto split: option.splits)
  then have "callers b1 c = callers b c"
    using Cons.prems(2) by (auto intro: step_ended_stays)
  then have "ending b1 c = Some out" using Cons.prems(2) by (simp add: ending_def)
  then show ?case using Cons.IH [OF b1(2)] by simp
qed

text \<open>Only the backend's reply and the timer change the state of a promise.\<close>

lemma step_promise_other:
  assumes "broker_inv b" and "step b ev = Some b'" and "promises b p = Some pm"
    and "reply_to p ev = []" and "ev \<noteq> Wake p"
  shows "promises b' p = Some pm"
proof (cases ev)
  case (Call c key useCache)
  then show ?thesis
    using assms(1,2,3) promises_enter_dedup [of b p c key useCache]
    by (auto split: option.splits if_splits)
next
  case (CacheReply c)
  then show ?thesis
    using assms(1,2,3) promises_enter_dedup [of b p]
    by (auto split: option.splits caller.splits)
next
  case (BackendReply q reply)
  then have "q \<noteq> p" using assms(4) by (auto simp add: reply_to_def split: if_splits)
  then show ?thesis
    using BackendReply assms(2,3) by (auto split: option.splits generation.splits)
next
  case (Wake q)
  then have "q \<noteq> p" using assms(5) by simp
  then show ?thesis
    using Wake assms(2,3) by (auto split: option.splits generation.splits if_splits)
qed (use assms(2,3) in \<open>auto simp add: finish_def split: option.splits caller.splits generation.splits if_splits\<close>)

lemma replies_to_Cons: "replies_to p (ev # evs) = reply_to p ev @ replies_to p evs"
  by (simp add: replies_to_def)

lemma reply_to_cases:
  "reply_to p ev = [] \<or> (\<exists>reply. ev = BackendReply p reply \<and> reply_to p ev = [reply])"
  by (cases ev) (auto simp add: reply_to_def)

text \<open>
  A pending promise with \<open>a\<close> failed attempts behind it, whose requests are rejected
  \<open>length es\<close> more times and then answered, is fulfilled with the answer, provided the
  number of failures stays below \<open>maxRetries\<close>.
\<close>

lemma promise_fulfilled:
  assumes "broker_inv b" and "run b evs = Some b'" and "promises b p = Some pm"
    and "unsettled (pm_state pm)"
    and "replies_to p evs = map Rejected es @ [Resolved r]"
    and "int (failed_attempts (pm_state pm) + length es) < maxRetries b"
  shows "settlement b' p = Some (Inr r)"
  using assms
proof (induction evs arbitrary: b pm es)
  case Nil
  then show ?case by (simp add: replies_to_def)
next
  case (Cons ev evs)
  then obtain b1 where b1: "step b ev = Some b1" "run b1 evs = Some b'"
    by (auto split: option.splits)
  have inv1: "broker_inv b1" using Cons.prems(1) b1(1) by (rule broker_inv_step)
  have mr: "maxRetries b1 = maxRetries b" using b1(1) by (rule maxRetries_step)
  show ?case
  proof (cases "reply_to p ev = []")
    case quiet: True
    show ?thesis
    proof (cases "ev = Wake p")
      case True
      then obtain a e u where st: "pm_state pm = Sleeping a e u"
        using b1(1) Cons.prems(3) by (auto split: generation.splits if_splits)
      then have p1: "promises b1 p = Some (pm\<lparr>pm_state := Posting (a + 1)\<rparr>)"
        using True b1(1) Cons.prems(3) by (auto split: if_splits)
      show ?thesis
        using Cons.IH [OF inv1 b1(2) p1, of es] Cons.prems(5,6) quiet st mr
        by (simp add: replies_to_Cons)
    next
      case False
      then have p1: "promises b1 p = Some pm"
        using Cons.prems(1,3) b1(1) quiet step_promise_other by blast
      show ?thesis
        using Cons.IH [OF inv1 b1(2) p1, of es] Cons.prems(4,5,6) quiet mr
        by (simp add: replies_to_Cons)
    qed
  next
    case False
    then obtain reply where ev: "ev = BackendReply p reply" "reply_to p ev = [reply]"
      using reply_to_cases [of p ev] by auto
    then obtain a where st: "pm_state pm = Posting a"
      using b1(1) Cons.prems(3) by (auto split: generation.splits)
    have rs: "reply # replies_to p evs = map Rejected es @ [Resolved r]"
      using Cons.prems(5) ev(2) by (simp add: replies_to_Cons)
    show ?thesis
    proof (cases es)
      case Nil
      then have "reply = Resolved r" "replies_to p evs = []" using rs by simp_all
      then have "settlement b1 p = Some (Inr r)"
        using ev(1) b1(1) Cons.prems(3) st by (auto simp add: settlement_def)
      then show ?thesis using inv1 b1(2) settlement_run by blast
    next
      case (Cons e es')
      then have r: "reply = Rejected e" "replies_to p evs = map Rejected es' @ [Resolved r]"
        using rs by simp_all
      have "int a < maxRetries b - 1"
        using Cons.prems(6) st Cons by simp
      then have p1: "promises b1 p = Some (pm\<lparr>pm_state := Sleeping a e (clock b + delay (backoff_ms a))\<rparr>)"
        using ev(1) r(1) b1(1) Cons.prems(3) st by auto
      show ?thesis
        using Cons.IH [OF inv1 b1(2) p1, of es'] r(2) Cons.prems(6) st Cons mr
        by simp
    qed
  qed
qed

text \<open>
  When the requests of a pending promise are rejected until \<open>maxRetries\<close> attempts have
  failed, the promise fails with the message of the last rejection.
\<close>

lemma promise_failed:
  assumes "broker_inv b" and "run b evs = Some b'" and "promises b p = Some pm"
    and "unsettled (pm_state pm)"
    and "replies_to p evs = map Rejected es" and "es \<noteq> []"
    and "int (failed_attempts (pm_state pm) + length es) = maxRetries b"
  shows "settlement b' p = Some (Inl (failure_message (maxRetries b) (last es)))"
  using assms
proof (induction evs arbitrary: b pm es)
  case Nil
  then show ?case by (simp add: replies_to_def)
next
  case (Cons ev evs)
  then obtain b1 where b1: "step b ev = Some b1" "run b1 evs = Some b'"
    by (auto split: option.splits)
  have inv1: "broker_inv b1" using Cons.prems(1) b1(1) by (rule broker_inv_step)
  have mr: "maxRetries b1 = maxRetries b" using b1(1) by (rule maxRetries_step)
  show ?case
  proof (cases "reply_to p ev = []")
    case quiet: True
    show ?thesis
    proof (cases "ev = Wake p")
      case True
      then obtain a e u where st: "pm_state pm = Sleeping a e u"
        using b1(1) Cons.prems(3) by (auto split: generation.splits if_splits)
      then have p1: "promises b1 p = Some (pm\<lparr>pm_state := Posting (a + 1)\<rparr>)"
        using True b1(1) Cons.prems(3) by (auto split: if_splits)
      show ?thesis
        using Cons.IH [OF inv1 b1(2) p1, of es] Cons.prems(5,6,7) quiet st mr
        by (simp add: replies_to_Cons)
    next
      case False
      then have p1: "promises b1 p = Some pm"
        using Cons.prems(1,3) b1(1) quiet step_promise_other by blast
      show ?thesis
        using Cons.IH [OF inv1 b1(2) p1, of es] Cons.prems(4,5,6,7) quiet mr
        by (simp add: replies_to_Cons)
    qed
  next
    case False
    then obtain reply where ev: "ev = BackendReply p reply" "reply_to p ev = [reply]"
      using reply_to_cases [of p ev] by auto
    then obtain a where st: "pm_state pm = Posting a"
      using b1(1) Cons.prems(3) by (auto split: generation.splits)
    have rs: "reply # replies_to p evs = map Rejected es"
      using Cons.prems(5) ev(2) by (simp add: replies_to_Cons)
    then obtain e es' where es: "es = e # es'" "reply = Rejected e"
      "replies_to p evs = map Rejected es'"
      by (cases es) auto
    show ?thesis
    proof (cases "es' = []")
      case True
      then have "\<not> int a < maxRetries b - 1"
        using Cons.prems(7) st es(1) by simp
      then have "settlement b1 p = Some (Inl (failure_message (maxRetries b) e))"
        using ev(1) es(2) b1(1) Cons.prems(3) st by (auto simp add: settlement_def)
      then have "settlement b' p = Some (Inl (failure_message (maxRetries b) e))"
        using inv1 b1(2) settlement_run by blast
      then show ?thesis using es(1) True by simp
    next
      case False
      then have "int a < maxRetries b - 1"
        using Cons.prems(7) st es(1) by (cases es') simp_all
      then have p1: "promises b1 p = Some (pm\<lparr>pm_state := Sleeping a e (clock b + delay (backoff_ms a))\<rparr>)"
        using ev(1) es(2) b1(1) Cons.prems(3) st by auto
      show ?thesis
        using Cons.IH [OF inv1 b1(2) p1, of es'] es(1,3) False Cons.prems(7) st mr
        by simp
    qed
  qed
qed

text \<open>
  The call that made a promise and ends with an error although the promise was fulfilled
  has had its cache write refused with that error.
\<close>

lemma owner_store_error:
  assumes "broker_inv b" and "run b evs = Some b'"
    and "callers b c = Some x" and "owned x = Some (p, key)"
    and "ending b' c = Some (Inl e)" and "settlement b' p = Some (Inr r)"
  shows "StoreError c e \<in> set evs"
  using assms
proof (induction evs arbitrary: b x)
  case Nil
  then show ?case by (cases x) (auto simp add: ending_def)
next
  case (Cons ev evs)
  then obtain b1 where b1: "step b ev = Some b1" "run b1 evs = Some b'"
    by (auto split: option.splits)
  have inv1: "broker_inv b1" using Cons.prems(1) b1(1) by (rule broker_inv_step)
  show ?case
  proof (cases "actor ev = Some c")
    case False
    then have "callers b1 c = Some x"
      using b1(1) Cons.prems(3) step_other_caller by metis
    then show ?thesis
      using Cons.IH [OF inv1 b1(2) _ Cons.prems(4,5,6)] by simp
  next
    case True
    consider (await) u where "x = Awaiting p key u" | (store) r' where "x = Storing p key r'"
      using Cons.prems(4) by (cases x) auto
    then show ?thesis
    proof cases
      case await
      then have ev: "ev = Resume c"
        using True b1(1) Cons.prems(3) by (cases ev) (auto split: option.splits caller.splits)
      then obtain out where out: "settlement b p = Some out"
        using b1(1) Cons.prems(3) await
        by (auto simp add: settlement_def split: option.splits generation.splits)
      then have "settlement b' p = Some out"
        using Cons.prems(1,2) settlement_run by blast
      then have o: "out = Inr r" using Cons.prems(6) by simp
      then have "callers b1 c = Some (Storing p key r) \<or> ending b1 c = Some (Inr r)"
        using ev b1(1) Cons.prems(3) await out
        by (auto simp add: settlement_def ending_def finish_def
            split: option.splits generation.splits if_splits)
      then show ?thesis
      proof
        assume "callers b1 c = Some (Storing p key r)"
        then show ?thesis
          using Cons.IH [OF inv1 b1(2) _ _ Cons.prems(5,6), of "Storing p key r"] by simp
      next
        assume "ending b1 c = Some (Inr r)"
        then have "ending b' c = Some (Inr r)" using b1(2) ending_run by blast
        then show ?thesis using Cons.prems(5) by simp
      qed
    next
      case store
      then have "(ev = StoreReply c \<and> ending b1 c = Some (Inr r'))
                 \<or> (\<exists>e'. ev = StoreError c e' \<and> ending b1 c = Some (Inl e'))"
        using True b1(1) Cons.prems(3)
        by (cases ev) (auto simp add: ending_def finish_def split: option.splits caller.splits)
      then show ?thesis
      proof
        assume "ev = StoreReply c \<and> ending b1 c = Some (Inr r')"
        then have "ending b' c = Some (Inr r')" using b1(2) ending_run by blast
        then show ?thesis using Cons.prems(5) by simp
      next
        assume "\<exists>e'. ev = StoreError c e' \<and> ending b1 c = Some (Inl e')"
        then obtain e' where e': "ev = StoreError c e'" "ending b1 c = Some (Inl e')" by blast
        then have "ending b' c = Some (Inl e')" using b1(2) ending_run by blast
        then show ?thesis using Cons.prems(5) e'(1) by simp
      qed
    qed
  qed
qed

text \<open>The timer of attempt \<open>a\<close>: \<open>2 ^ a\<close> seconds up to attempt 21, one millisecond from attempt 22.\<close>

lemma delay_backoff:
  "delay (backoff_ms a) = (if a \<le> 21 then 2 ^ a * 1000 else 1)"
proof (cases "a \<le> 21")
  case True
  then have "(2::nat) ^ a \<le> 2 ^ 21" by (intro power_increasing) simp_all
  then have "(2::nat) ^ a * 1000 \<le> 2147483647" by simp
  moreover have "(1::nat) \<le> 2 ^ a * 1000" by simp
  ultimately show ?thesis
    using True by (simp add: delay_def setTimeout_ms_def TIMEOUT_MAX_def backoff_ms_def)
next
  case False
  then have "(2::nat) ^ 22 \<le> 2 ^ a" by (intro power_increasing) simp_all
  then have "(2147483647::nat) < 2 ^ a * 1000" by simp
  then show ?thesis
    using False by (simp add: delay_def setTimeout_ms_def TIMEOUT_MAX_def backoff_ms_def)
qed

lemma effective_maxRetries_nonzero: "effective_maxRetries configured \<noteq> 0"
  by (simp add: effective_maxRetries_def split: option.splits)

lemma maxRetries_init: "maxRetries (init_broker caching configured store) = effective_maxRetries configured"
  by (simp add: init_broker_def)

lemma cacheEnabled_init: "cacheEnabled (init_broker caching configured store) = caching"
  by (simp add: init_broker_def)

section \<open>Claims about the generation broker\<close>

lemmas broker_eval = sample_broker_def sample_first_call_def sample_later_calls_def
  sample_overlap_def sample_settled_def sample_joined_call_def sample_next_call_def
  sample_patient_broker_def sample_hasty_broker_def sample_asked_def sample_flaky_backend_def
  sample_dead_backend_def sample_unsaved_def
  init_broker_def effective_maxRetries_def advance_def happens_def enter_dedup_def
  cache_hit_def finish_def in_flight_def posting_def posts_for_def ending_def settlement_def
  delay_def setTimeout_ms_def TIMEOUT_MAX_def backoff_ms_def failure_message_def
  replies_to_def reply_to_def Let_def

text \<open>
  C1, as the code has it. In every state the broker reaches, at most one request per key
  is waiting for the backend, and while one is waiting no event posts another request for
  that key. A call that reaches the lookup in \<open>activeRequests\<close> meanwhile (at once when it
  does not use the cache, after a cache miss when it does) posts nothing and returns the
  promise already made; it ends the way that promise settles, and so does the call that
  made the promise, unless its own cache write fails. A call that finds the key in the
  cache never gets that far: it returns the cached response.
\<close>

theorem one_generation_per_key:
  "run (init_broker caching configured store) evs = Some b \<longrightarrow>
     length (in_flight b key) \<le> 1
     \<and> (in_flight b key \<noteq> [] \<and> step b ev = Some b' \<longrightarrow> posts_for b' key = posts_for b key)
     \<and> (in_flight b key = [p] \<and> callers b c = None \<and> \<not> (cacheEnabled b \<and> useCache) \<longrightarrow>
          step b (Call c key useCache) = Some (b\<lparr>callers := (callers b)(c \<mapsto> Joined p)\<rparr>))
     \<and> (in_flight b key = [p] \<and> callers b c = Some (CacheLookup key useCache) \<and>
          cache_hit b key = None \<longrightarrow>
          step b (CacheReply c) = Some (b\<lparr>callers := (callers b)(c \<mapsto> Joined p)\<rparr>))
     \<and> (callers b c = Some (Joined p) \<and> run b evs' = Some b'' \<and> ending b'' c = Some out \<longrightarrow>
          settlement b'' p = Some out)
     \<and> (callers b c = Some (Awaiting p key useCache) \<and> run b evs' = Some b'' \<and>
          ending b'' c = Some out \<longrightarrow>
          settlement b'' p = Some out
          \<or> (\<exists>r e. settlement b'' p = Some (Inr r) \<and> out = Inl e \<and> cacheEnabled b \<and> useCache))
     \<and> (callers b c = Some (CacheLookup key useCache) \<and> cache_hit b key = Some cached \<longrightarrow>
          step b (CacheReply c) = Some (b\<lparr>callers := (callers b)(c \<mapsto> Returned cached)\<rparr>))"
proof (intro impI conjI)
  assume reach: "run (init_broker caching configured store) evs = Some b"
  then have inv: "broker_inv b"
    using broker_inv_init broker_inv_run by blast
  show "length (in_flight b key) \<le> 1"
    using inv by (rule in_flight_at_most_one)
  {
    assume "in_flight b key \<noteq> [] \<and> step b ev = Some b'"
    then show "posts_for b' key = posts_for b key"
      using inv no_post_while_in_flight by blast
  }
  {
    assume a: "in_flight b key = [p] \<and> callers b c = None \<and> \<not> (cacheEnabled b \<and> useCache)"
    then have "enter_dedup b c key useCache = b\<lparr>callers := (callers b)(c \<mapsto> Joined p)\<rparr>"
      using inv joins_generation_in_flight by blast
    then show "step b (Call c key useCache) = Some (b\<lparr>callers := (callers b)(c \<mapsto> Joined p)\<rparr>)"
      using a by auto
  }
  {
    assume a: "in_flight b key = [p] \<and> callers b c = Some (CacheLookup key useCache) \<and>
          cache_hit b key = None"
    then have "enter_dedup b c key useCache = b\<lparr>callers := (callers b)(c \<mapsto> Joined p)\<rparr>"
      using inv joins_generation_in_flight by blast
    then show "step b (CacheReply c) = Some (b\<lparr>callers := (callers b)(c \<mapsto> Joined p)\<rparr>)"
      using a by simp
  }
  {
    assume a: "callers b c = Some (Joined p) \<and> run b evs' = Some b'' \<and> ending b'' c = Some out"
    then have "served b c p" by (simp add: served_def)
    then have "served b'' c p" using inv a served_run by blast
    then show "settlement b'' p = Some out"
      using a by (auto simp add: served_def ending_def)
  }
  {
    assume a: "callers b c = Some (Awaiting p key useCache) \<and> run b evs' = Some b'' \<and>
          ending b'' c = Some out"
    then have "owner_served b c p useCache" by (auto simp add: owner_served_def)
    then have "owner_served b'' c p useCache" using inv a owner_served_run by blast
    moreover have "cacheEnabled b'' = cacheEnabled b" using a cacheEnabled_run by blast
    ultimately show "settlement b'' p = Some out
          \<or> (\<exists>r e. settlement b'' p = Some (Inr r) \<and> out = Inl e \<and> cacheEnabled b \<and> useCache)"
      using a by (auto simp add: owner_served_def ending_def)
  }
  {
    assume "callers b c = Some (CacheLookup key useCache) \<and> cache_hit b key = Some cached"
    then show "step b (CacheReply c) = Some (b\<lparr>callers := (callers b)(c \<mapsto> Returned cached)\<rparr>)"
      by simp
  }
qed

theorem one_generation_per_key_witness:
  "all_enabled sample_broker sample_overlap
   \<and> in_flight (exec sample_broker sample_overlap) ''k'' = [1]
   \<and> length (in_flight (exec sample_broker sample_overlap) ''k'') \<le> 1
   \<and> callers (exec sample_broker sample_overlap) 4 = None
   \<and> step (exec sample_broker sample_overlap) (Call 4 ''k'' False) =
        Some ((exec sample_broker sample_overlap)
                \<lparr>callers := (callers (exec sample_broker sample_overlap))(4 \<mapsto> Joined 1)\<rparr>)
   \<and> callers (exec sample_broker sample_overlap) 3 = Some (Joined 1)
   \<and> callers (exec sample_broker sample_overlap) 1 = Some (Awaiting 1 ''k'' False)
   \<and> all_enabled (exec sample_broker sample_overlap) sample_settled
   \<and> ending (exec (exec sample_broker sample_overlap) sample_settled) 3 = Some (Inr ''new'')
   \<and> ending (exec (exec sample_broker sample_overlap) sample_settled) 1 = Some (Inr ''new'')
   \<and> settlement (exec (exec sample_broker sample_overlap) sample_settled) 1 = Some (Inr ''new'')"
proof -
  let ?b = "exec sample_broker sample_overlap"
  let ?b2 = "exec ?b sample_settled"
  have e1: "all_enabled sample_broker sample_overlap" by (simp add: broker_eval upt_rec)
  have e2: "all_enabled ?b sample_settled" by (simp add: broker_eval upt_rec)
  have r1: "run (init_broker True None Map.empty) sample_overlap = Some ?b"
    using run_exec [OF e1] by (simp add: sample_broker_def)
  have r2: "run ?b sample_settled = Some ?b2"
    using run_exec [OF e2] .
  have f: "in_flight ?b ''k'' = [1]" "callers ?b 4 = None" "callers ?b 3 = Some (Joined 1)"
    "callers ?b 1 = Some (Awaiting 1 ''k'' False)"
    "ending ?b2 3 = Some (Inr ''new'')" "ending ?b2 1 = Some (Inr ''new'')"
    by (simp_all add: broker_eval upt_rec)
  note inst = one_generation_per_key [of True None Map.empty sample_overlap ?b "''k''"]
  have c1: "length (in_flight ?b ''k'') \<le> 1"
    using inst r1 by blast
  have c2: "step ?b (Call 4 ''k'' False) = Some (?b\<lparr>callers := (callers ?b)(4 \<mapsto> Joined 1)\<rparr>)"
    using inst [of _ _ 1 4 False] r1 f(1,2) by blast
  have c3: "settlement ?b2 1 = Some (Inr ''new'')"
    using inst [of _ _ 1 3 _ sample_settled ?b2 "Inr ''new''"] r1 r2 f(3,5) by blast
  show ?thesis using e1 e2 f c1 c2 c3 by blast
qed

text \<open>
  The claim as stated fails: call 1 does not use the cache and its request is pending when
  call 2, with the same key, arrives; call 2 finds the key in the cache and returns the old
  response, call 1 returns the new one. (One request was posted for the first call of the
  sample, one for call 1.)
\<close>

theorem second_caller_served_from_cache_counterexample:
  "all_enabled sample_broker (sample_overlap @ sample_settled)
   \<and> callers (exec sample_broker sample_overlap) 1 = Some (Awaiting 1 ''k'' False)
   \<and> in_flight (exec sample_broker sample_overlap) ''k'' = [1]
   \<and> callers (exec sample_broker sample_overlap) 2 = Some (CacheLookup ''k'' True)
   \<and> ending (exec sample_broker (sample_overlap @ sample_settled)) 1 = Some (Inr ''new'')
   \<and> ending (exec sample_broker (sample_overlap @ sample_settled)) 2 = Some (Inr ''old'')
   \<and> posts_for (exec sample_broker (sample_overlap @ sample_settled)) ''k'' = 2"
  by (simp add: broker_eval upt_rec)

text \<open>
  C2, as the code has it. Once a call has written its response to the cache (which only a
  call that made the backend request itself does, with \<open>useCache = true\<close> and caching
  enabled in the configuration), every later lookup of the same key that is answered
  before the entry expires, one hour after the write, returns that response without going
  on to the backend, whatever is in flight.
\<close>

theorem cached_result_served:
  "run (init_broker caching configured store) evs = Some b \<and>
   callers b c = Some (Storing p key r) \<and> step b (StoreReply c) = Some b1 \<and>
   run b1 evs' = Some b2 \<and> clock b2 < clock b + 3600000 \<and>
   callers b2 c' = Some (CacheLookup key True)
   \<longrightarrow> ending b1 c = Some (Inr r) \<and>
       step b2 (CacheReply c') = Some (b2\<lparr>callers := (callers b2)(c' \<mapsto> Returned r)\<rparr>)"
proof (intro impI)
  assume a: "run (init_broker caching configured store) evs = Some b \<and>
   callers b c = Some (Storing p key r) \<and> step b (StoreReply c) = Some b1 \<and>
   run b1 evs' = Some b2 \<and> clock b2 < clock b + 3600000 \<and>
   callers b2 c' = Some (CacheLookup key True)"
  then have inv: "broker_inv b"
    using broker_inv_init broker_inv_run by blast
  then have "cacheEnabled b"
    using a unfolding broker_inv_def inv_storing_def by blast
  then have ce: "cacheEnabled b1" using a cacheEnabled_step by blast
  have "entry_kept key r (clock b + 3600000) b1"
    using inv a entry_kept_after_store by blast
  then have "entry_kept key r (clock b + 3600000) b2"
    using ce a entry_kept_run by blast
  then have "cache_hit b2 key = Some r"
    using a by (simp add: entry_kept_def cache_hit_def)
  then have "step b2 (CacheReply c') = Some (b2\<lparr>callers := (callers b2)(c' \<mapsto> Returned r)\<rparr>)"
    using a by simp
  moreover have "ending b1 c = Some (Inr r)"
    using a by (auto simp add: ending_def finish_def)
  ultimately show "ending b1 c = Some (Inr r) \<and>
       step b2 (CacheReply c') = Some (b2\<lparr>callers := (callers b2)(c' \<mapsto> Returned r)\<rparr>)"
    by simp
qed

theorem cached_result_served_witness:
  "all_enabled sample_broker sample_first_call
   \<and> callers (exec sample_broker sample_first_call) 0 = Some (Storing 0 ''k'' ''old'')
   \<and> all_enabled (exec sample_broker sample_first_call) [StoreReply 0]
   \<and> all_enabled (exec (exec sample_broker sample_first_call) [StoreReply 0]) sample_later_calls
   \<and> clock (exec (exec (exec sample_broker sample_first_call) [StoreReply 0]) sample_later_calls)
        < clock (exec sample_broker sample_first_call) + 3600000
   \<and> callers (exec (exec (exec sample_broker sample_first_call) [StoreReply 0]) sample_later_calls) 2
        = Some (CacheLookup ''k'' True)
   \<and> in_flight (exec (exec (exec sample_broker sample_first_call) [StoreReply 0]) sample_later_calls) ''k''
        = [1]
   \<and> ending (exec (exec sample_broker sample_first_call) [StoreReply 0]) 0 = Some (Inr ''old'')
   \<and> step (exec (exec (exec sample_broker sample_first_call) [StoreReply 0]) sample_later_calls)
          (CacheReply 2) =
        Some ((exec (exec (exec sample_broker sample_first_call) [StoreReply 0]) sample_later_calls)
          \<lparr>callers := (callers (exec (exec (exec sample_broker sample_first_call) [StoreReply 0])
                                    sample_later_calls))(2 \<mapsto> Returned ''old'')\<rparr>)"
proof -
  let ?b = "exec sample_broker sample_first_call"
  let ?b1 = "exec ?b [StoreReply 0]"
  let ?b2 = "exec ?b1 sample_later_calls"
  have e: "all_enabled sample_broker sample_first_call" "all_enabled ?b [StoreReply 0]"
    "all_enabled ?b1 sample_later_calls"
    by (simp_all add: broker_eval upt_rec)
  have f: "callers ?b 0 = Some (Storing 0 ''k'' ''old'')" "clock ?b2 < clock ?b + 3600000"
    "callers ?b2 2 = Some (CacheLookup ''k'' True)" "in_flight ?b2 ''k'' = [1]"
    by (simp_all add: broker_eval upt_rec)
  have r: "run (init_broker True None Map.empty) sample_first_call = Some ?b"
    "step ?b (StoreReply 0) = Some ?b1" "run ?b1 sample_later_calls = Some ?b2"
    using run_exec [OF e(1)] step_exec [OF e(2)] run_exec [OF e(3)]
    by (simp_all add: sample_broker_def)
  have c: "ending ?b1 0 = Some (Inr ''old'') \<and>
       step ?b2 (CacheReply 2) = Some (?b2\<lparr>callers := (callers ?b2)(2 \<mapsto> Returned ''old'')\<rparr>)"
    using cached_result_served
      [of True None Map.empty sample_first_call ?b 0 0 "''k''" "''old''" ?b1 sample_later_calls ?b2 2]
      r f(1,2,3)
    by blast
  show ?thesis using e f c by blast
qed

text \<open>
  The claim as stated fails: call 1 is made with \<open>useCache = true\<close> and completes
  successfully, served by the promise of call 0, which does not use the cache; nothing is
  stored, and call 2, made at once with the same key and \<open>useCache = true\<close>, misses the
  cache and posts a second request.
\<close>

theorem joined_call_stores_nothing_counterexample:
  "all_enabled sample_broker (sample_joined_call @ sample_next_call)
   \<and> ending (exec sample_broker sample_joined_call) 1 = Some (Inr ''old'')
   \<and> posts_for (exec sample_broker sample_joined_call) ''k'' = 1
   \<and> clock (exec sample_broker (sample_joined_call @ sample_next_call)) = 0
   \<and> callers (exec sample_broker (sample_joined_call @ sample_next_call)) 2
        = Some (Awaiting 1 ''k'' True)
   \<and> posts_for (exec sample_broker (sample_joined_call @ sample_next_call)) ''k'' = 2"
  by (simp add: broker_eval upt_rec)

text \<open>
  C3, as the code has it. Take a call of \<open>generate\<close> that has made the backend request
  itself: it waits for promise \<open>p\<close>, whose first request is pending. The number of attempts
  allowed is the configured \<open>maxRetries\<close>, and 3 when none (or zero) is configured. If the
  backend then rejects the requests of the promise \<open>n\<close> times, with \<open>n\<close> below that number,
  and answers the next one, the promise is fulfilled with the answer; the call can only end
  by returning that answer or with the error of its own cache write, and once the promise
  and the cache write (made when caching is enabled and \<open>useCache\<close> is set) are answered it
  returns the answer. If the backend rejects \<open>maxRetries\<close> requests, the promise and the
  call fail with \<open>Generation failed after <maxRetries> attempts: <last error>\<close>. After a
  rejected attempt \<open>a\<close> that is not the last one the next request is posted when a timer of
  \<open>2 ^ a\<close> seconds has fired, for \<open>a\<close> up to 21; from attempt 22 on the timer is one of
  1 millisecond.
\<close>

theorem generate_retries:
  "run (init_broker caching configured store) evs0 = Some b \<and>
   callers b c = Some (Awaiting p key useCache) \<and>
   map_option pm_state (promises b p) = Some (Posting 0) \<and>
   run b evs = Some b'
   \<longrightarrow>
     maxRetries b' = (case configured of None \<Rightarrow> 3 | Some n \<Rightarrow> if n = 0 then 3 else n)
   \<and> (replies_to p evs = map Rejected es @ [Resolved r] \<and> int (length es) < maxRetries b' \<longrightarrow>
        settlement b' p = Some (Inr r)
        \<and> (ending b' c = Some out \<longrightarrow>
             out = Inr r \<or> (\<exists>e. out = Inl e \<and> StoreError c e \<in> set evs \<and> caching \<and> useCache))
        \<and> (callers b' c = Some (Awaiting p key useCache) \<longrightarrow>
             map_option (\<lambda>b''. ending b'' c)
               (run b' (if caching \<and> useCache then [Resume c, StoreReply c] else [Resume c]))
             = Some (Some (Inr r))))
   \<and> (replies_to p evs = map Rejected es \<and> int (length es) = maxRetries b' \<longrightarrow>
        settlement b' p =
          Some (Inl (''Generation failed after '' @ show_int (maxRetries b') @ '' attempts: '' @ last es))
        \<and> (ending b' c = Some out \<longrightarrow>
             out = Inl (''Generation failed after '' @ show_int (maxRetries b') @ '' attempts: '' @ last es))
        \<and> (callers b' c = Some (Awaiting p key useCache) \<longrightarrow>
             map_option (\<lambda>b''. ending b'' c) (run b' [Resume c]) =
               Some (Some (Inl (''Generation failed after '' @ show_int (maxRetries b')
                                 @ '' attempts: '' @ last es)))))
   \<and> (map_option pm_state (promises b' p) = Some (Posting a) \<and> int a < maxRetries b' - 1 \<longrightarrow>
        map_option (\<lambda>b''. map_option pm_state (promises b'' p))
          (step b' (BackendReply p (Rejected e'))) =
        Some (Some (Sleeping a e' (clock b' + (if a \<le> 21 then 2 ^ a * 1000 else 1)))))
   \<and> (map_option pm_state (promises b' p) = Some (Sleeping a e' until) \<longrightarrow>
        map_option (\<lambda>b''. map_option pm_state (promises b'' p)) (step b' (Wake p)) =
        (if until \<le> clock b' then Some (Some (Posting (a + 1))) else None))"
proof (intro impI)
  assume hyp: "run (init_broker caching configured store) evs0 = Some b \<and>
   callers b c = Some (Awaiting p key useCache) \<and>
   map_option pm_state (promises b p) = Some (Posting 0) \<and>
   run b evs = Some b'"
  then have inv: "broker_inv b"
    using broker_inv_init broker_inv_run by blast
  then have inv': "broker_inv b'" using hyp broker_inv_run by blast
  have mr: "maxRetries b = effective_maxRetries configured"
    using hyp maxRetries_run maxRetries_init by metis
  have mr': "maxRetries b' = maxRetries b" using hyp maxRetries_run by blast
  have ce: "cacheEnabled b = caching"
    using hyp cacheEnabled_run cacheEnabled_init by metis
  have ce': "cacheEnabled b' = caching" using hyp ce cacheEnabled_run by metis
  obtain pm where pm: "promises b p = Some pm" "pm_state pm = Posting 0"
    using hyp by auto
  have own: "owner_served b' c p useCache"
    using inv hyp owner_served_run [of b evs b' c p useCache] by (auto simp add: owner_served_def)
  have c1: "maxRetries b' = (case configured of None \<Rightarrow> 3 | Some n \<Rightarrow> if n = 0 then 3 else n)"
    using mr mr' by (simp add: effective_maxRetries_def)
  have c2: "settlement b' p = Some (Inr r)
        \<and> (ending b' c = Some out \<longrightarrow>
             out = Inr r \<or> (\<exists>e. out = Inl e \<and> StoreError c e \<in> set evs \<and> caching \<and> useCache))
        \<and> (callers b' c = Some (Awaiting p key useCache) \<longrightarrow>
             map_option (\<lambda>b''. ending b'' c)
               (run b' (if caching \<and> useCache then [Resume c, StoreReply c] else [Resume c]))
             = Some (Some (Inr r)))"
    if a: "replies_to p evs = map Rejected es @ [Resolved r] \<and> int (length es) < maxRetries b'"
  proof -
    have s: "settlement b' p = Some (Inr r)"
      using inv hyp pm a mr' promise_fulfilled [of b evs b' p pm es r] by simp
    have e: "out = Inr r \<or> (\<exists>e. out = Inl e \<and> StoreError c e \<in> set evs \<and> caching \<and> useCache)"
      if o: "ending b' c = Some out"
    proof (cases out)
      case (Inr r')
      then show ?thesis using own o s by (auto simp add: owner_served_def ending_def)
    next
      case (Inl e)
      then have "StoreError c e \<in> set evs"
        using inv hyp o s owner_store_error [of b evs b' c "Awaiting p key useCache" p key e r]
        by simp
      moreover have "caching \<and> useCache"
        using own o s Inl ce' by (auto simp add: owner_served_def ending_def)
      ultimately show ?thesis using Inl by simp
    qed
    have f: "map_option (\<lambda>b''. ending b'' c)
               (run b' (if caching \<and> useCache then [Resume c, StoreReply c] else [Resume c]))
             = Some (Some (Inr r))"
      if w: "callers b' c = Some (Awaiting p key useCache)"
      using w s ce'
      by (auto simp add: settlement_def ending_def finish_def
          split: option.splits generation.splits)
    show ?thesis using s e f by blast
  qed
  have c3: "settlement b' p = Some (Inl (''Generation failed after '' @ show_int (maxRetries b')
                                          @ '' attempts: '' @ last es))
        \<and> (ending b' c = Some out \<longrightarrow>
             out = Inl (''Generation failed after '' @ show_int (maxRetries b') @ '' attempts: '' @ last es))
        \<and> (callers b' c = Some (Awaiting p key useCache) \<longrightarrow>
             map_option (\<lambda>b''. ending b'' c) (run b' [Resume c]) =
               Some (Some (Inl (''Generation failed after '' @ show_int (maxRetries b')
                                 @ '' attempts: '' @ last es))))"
    if a: "replies_to p evs = map Rejected es \<and> int (length es) = maxRetries b'"
  proof -
    have "es \<noteq> []"
      using a mr mr' effective_maxRetries_nonzero [of configured] by auto
    then have s: "settlement b' p = Some (Inl (failure_message (maxRetries b') (last es)))"
      using inv hyp pm a mr' promise_failed [of b evs b' p pm es] by simp
    have e: "out = Inl (failure_message (maxRetries b') (last es))" if o: "ending b' c = Some out"
      using own o s by (auto simp add: owner_served_def ending_def)
    have f: "map_option (\<lambda>b''. ending b'' c) (run b' [Resume c]) =
               Some (Some (Inl (failure_message (maxRetries b') (last es))))"
      if w: "callers b' c = Some (Awaiting p key useCache)"
      using w s
      by (auto simp add: settlement_def ending_def finish_def
          split: option.splits generation.splits)
    show ?thesis using s e f by (simp add: failure_message_def)
  qed
  have c4: "map_option (\<lambda>b''. map_option pm_state (promises b'' p))
          (step b' (BackendReply p (Rejected e'))) =
        Some (Some (Sleeping a e' (clock b' + (if a \<le> 21 then 2 ^ a * 1000 else 1))))"
    if a: "map_option pm_state (promises b' p) = Some (Posting a) \<and> int a < maxRetries b' - 1"
    using a delay_backoff [of a] by (auto split: option.splits)
  have c5: "map_option (\<lambda>b''. map_option pm_state (promises b'' p)) (step b' (Wake p)) =
        (if until \<le> clock b' then Some (Some (Posting (a + 1))) else None)"
    if a: "map_option pm_state (promises b' p) = Some (Sleeping a e' until)"
    using a by (auto split: option.splits)
  show "maxRetries b' = (case configured of None \<Rightarrow> 3 | Some n \<Rightarrow> if n = 0 then 3 else n)
   \<and> (replies_to p evs = map Rejected es @ [Resolved r] \<and> int (length es) < maxRetries b' \<longrightarrow>
        settlement b' p = Some (Inr r)
        \<and> (ending b' c = Some out \<longrightarrow>
             out = Inr r \<or> (\<exists>e. out = Inl e \<and> StoreError c e \<in> set evs \<and> caching \<and> useCache))
        \<and> (callers b' c = Some (Awaiting p key useCache) \<longrightarrow>
             map_option (\<lambda>b''. ending b'' c)
               (run b' (if caching \<and> useCache then [Resume c, StoreReply c] else [Resume c]))
             = Some (Some (Inr r))))
   \<and> (replies_to p evs = map Rejected es \<and> int (length es) = maxRetries b' \<longrightarrow>
        settlement b' p =
          Some (Inl (''Generation failed after '' @ show_int (maxRetries b') @ '' attempts: '' @ last es))
        \<and> (ending b' c = Some out \<longrightarrow>
             out = Inl (''Generation failed after '' @ show_int (maxRetries b') @ '' attempts: '' @ last es))
        \<and> (callers b' c = Some (Awaiting p key useCache) \<longrightarrow>
             map_option (\<lambda>b''. ending b'' c) (run b' [Resume c]) =
               Some (Some (Inl (''Generation failed after '' @ show_int (maxRetries b')
                                 @ '' attempts: '' @ last es)))))
   \<and> (map_option pm_state (promises b' p) = Some (Posting a) \<and> int a < maxRetries b' - 1 \<longrightarrow>
        map_option (\<lambda>b''. map_option pm_state (promises b'' p))
          (step b' (BackendReply p (Rejected e'))) =
        Some (Some (Sleeping a e' (clock b' + (if a \<le> 21 then 2 ^ a * 1000 else 1)))))
   \<and> (map_option pm_state (promises b' p) = Some (Sleeping a e' until) \<longrightarrow>
        map_option (\<lambda>b''. map_option pm_state (promises b'' p)) (step b' (Wake p)) =
        (if until \<le> clock b' then Some (Some (Posting (a + 1))) else None))"
    using c1 c2 c3 c4 c5 by blast
qed

theorem generate_retries_witness:
  "all_enabled sample_patient_broker sample_asked
   \<and> callers (exec sample_patient_broker sample_asked) 0 = Some (Awaiting 0 ''k'' True)
   \<and> map_option pm_state (promises (exec sample_patient_broker sample_asked) 0) = Some (Posting 0)
   \<and> all_enabled (exec sample_patient_broker sample_asked) sample_flaky_backend
   \<and> replies_to 0 sample_flaky_backend =
        map Rejected [''timeout of 300000ms exceeded'', ''socket hang up'',
                      ''timeout of 300000ms exceeded''] @ [Resolved ''ok'']
   \<and> maxRetries (exec (exec sample_patient_broker sample_asked) sample_flaky_backend) = 5
   \<and> settlement (exec (exec sample_patient_broker sample_asked) sample_flaky_backend) 0
        = Some (Inr ''ok'')
   \<and> callers (exec (exec sample_patient_broker sample_asked) sample_flaky_backend) 0
        = Some (Awaiting 0 ''k'' True)
   \<and> map_option (\<lambda>b''. ending b'' 0)
        (run (exec (exec sample_patient_broker sample_asked) sample_flaky_backend)
           [Resume 0, StoreReply 0]) = Some (Some (Inr ''ok''))
   \<and> map_option (\<lambda>b''. map_option pm_state (promises b'' 0))
        (step (exec sample_patient_broker sample_asked) (BackendReply 0 (Rejected ''socket hang up'')))
        = Some (Some (Sleeping 0 ''socket hang up'' 1000))
   \<and> map_option pm_state
        (promises (exec (exec sample_patient_broker sample_asked)
                     [BackendReply 0 (Rejected ''socket hang up''), Tick 1000]) 0)
        = Some (Sleeping 0 ''socket hang up'' 1000)
   \<and> map_option (\<lambda>b''. map_option pm_state (promises b'' 0))
        (step (exec (exec sample_patient_broker sample_asked)
                 [BackendReply 0 (Rejected ''socket hang up''), Tick 1000]) (Wake 0))
        = Some (Some (Posting 1))
   \<and> all_enabled sample_hasty_broker sample_asked
   \<and> callers (exec sample_hasty_broker sample_asked) 0 = Some (Awaiting 0 ''k'' True)
   \<and> map_option pm_state (promises (exec sample_hasty_broker sample_asked) 0) = Some (Posting 0)
   \<and> all_enabled (exec sample_hasty_broker sample_asked) sample_dead_backend
   \<and> replies_to 0 sample_dead_backend =
        map Rejected [''timeout of 300000ms exceeded'', ''connect ECONNREFUSED'']
   \<and> maxRetries (exec (exec sample_hasty_broker sample_asked) sample_dead_backend) = 2
   \<and> settlement (exec (exec sample_hasty_broker sample_asked) sample_dead_backend) 0
        = Some (Inl ''Generation failed after 2 attempts: connect ECONNREFUSED'')
   \<and> map_option (\<lambda>b''. ending b'' 0)
        (run (exec (exec sample_hasty_broker sample_asked) sample_dead_backend) [Resume 0])
        = Some (Some (Inl ''Generation failed after 2 attempts: connect ECONNREFUSED''))"
proof -
  let ?b = "exec sample_patient_broker sample_asked"
  let ?b' = "exec ?b sample_flaky_backend"
  let ?nap = "[BackendReply 0 (Rejected ''socket hang up''), Tick 1000]"
  let ?s = "exec ?b ?nap"
  let ?h = "exec sample_hasty_broker sample_asked"
  let ?h' = "exec ?h sample_dead_backend"
  let ?es = "[''timeout of 300000ms exceeded'', ''socket hang up'', ''timeout of 300000ms exceeded'']"
  let ?ds = "[''timeout of 300000ms exceeded'', ''connect ECONNREFUSED'']"
  have e: "all_enabled sample_patient_broker sample_asked" "all_enabled ?b sample_flaky_backend"
    "all_enabled ?b ?nap"
    "all_enabled sample_hasty_broker sample_asked" "all_enabled ?h sample_dead_backend"
    by (simp_all add: broker_eval)
  have r: "run (init_broker True (Some 5) Map.empty) sample_asked = Some ?b"
    "run ?b sample_flaky_backend = Some ?b'" "run ?b ?nap = Some ?s" "run ?b [] = Some ?b"
    "run (init_broker True (Some 2) Map.empty) sample_asked = Some ?h"
    "run ?h sample_dead_backend = Some ?h'"
    using run_exec [OF e(1)] run_exec [OF e(2)] run_exec [OF e(3)] run_exec [OF e(4)]
      run_exec [OF e(5)]
    by (simp_all add: sample_patient_broker_def sample_hasty_broker_def)
  have f: "callers ?b 0 = Some (Awaiting 0 ''k'' True)"
    "map_option pm_state (promises ?b 0) = Some (Posting 0)"
    "replies_to 0 sample_flaky_backend = map Rejected ?es @ [Resolved ''ok'']"
    "callers ?b' 0 = Some (Awaiting 0 ''k'' True)"
    "int (length ?es) < maxRetries ?b'"
    "int 0 < maxRetries ?b - 1"
    "map_option pm_state (promises ?s 0) = Some (Sleeping 0 ''socket hang up'' 1000)"
    "1000 \<le> clock ?s"
    by (simp_all add: broker_eval)
  have g: "callers ?h 0 = Some (Awaiting 0 ''k'' True)"
    "map_option pm_state (promises ?h 0) = Some (Posting 0)"
    "replies_to 0 sample_dead_backend = map Rejected ?ds"
    "callers ?h' 0 = Some (Awaiting 0 ''k'' True)"
    "int (length ?ds) = maxRetries ?h'"
    "maxRetries ?h' = 2"
    by (simp_all add: broker_eval)
  have two: "show_int 2 = ''2''" by code_simp
  note good = generate_retries
    [of True "Some 5" Map.empty sample_asked ?b 0 0 "''k''" True sample_flaky_backend ?b' ?es "''ok''"]
  note first = generate_retries
    [of True "Some 5" Map.empty sample_asked ?b 0 0 "''k''" True "[]" ?b _ _ _ 0 "''socket hang up''"]
  note nap = generate_retries
    [of True "Some 5" Map.empty sample_asked ?b 0 0 "''k''" True ?nap ?s _ _ _
        0 "''socket hang up''" 1000]
  note dead = generate_retries
    [of True "Some 2" Map.empty sample_asked ?h 0 0 "''k''" True sample_dead_backend ?h' ?ds]
  have c1: "maxRetries ?b' = 5" "settlement ?b' 0 = Some (Inr ''ok'')"
    "map_option (\<lambda>b''. ending b'' 0) (run ?b' [Resume 0, StoreReply 0]) = Some (Some (Inr ''ok''))"
    using good r(1,2) f(1,2,3,4,5) by simp_all
  have c2: "map_option (\<lambda>b''. map_option pm_state (promises b'' 0))
        (step ?b (BackendReply 0 (Rejected ''socket hang up'')))
        = Some (Some (Sleeping 0 ''socket hang up'' (clock ?b + (if (0::nat) \<le> 21 then 2 ^ 0 * 1000 else 1))))"
    using first r(1,4) f(1,2,6) by blast
  have c3: "map_option (\<lambda>b''. map_option pm_state (promises b'' 0)) (step ?s (Wake 0))
        = (if 1000 \<le> clock ?s then Some (Some (Posting (0 + 1))) else None)"
    using nap r(1,3) f(1,2,7) by blast
  have c4: "settlement ?h' 0 =
          Some (Inl (''Generation failed after '' @ show_int (maxRetries ?h') @ '' attempts: '' @ last ?ds))"
    "map_option (\<lambda>b''. ending b'' 0) (run ?h' [Resume 0]) =
          Some (Some (Inl (''Generation failed after '' @ show_int (maxRetries ?h') @ '' attempts: '' @ last ?ds)))"
    using dead r(5,6) g(1,2,3,4,5) by blast+
  have c2': "map_option (\<lambda>b''. map_option pm_state (promises b'' 0))
        (step ?b (BackendReply 0 (Rejected ''socket hang up'')))
        = Some (Some (Sleeping 0 ''socket hang up'' 1000))"
    using c2 by (simp add: broker_eval)
  have c3': "map_option (\<lambda>b''. map_option pm_state (promises b'' 0)) (step ?s (Wake 0))
        = Some (Some (Posting 1))"
    using c3 f(8) by simp
  have c4': "settlement ?h' 0 = Some (Inl ''Generation failed after 2 attempts: connect ECONNREFUSED'')"
    "map_option (\<lambda>b''. ending b'' 0) (run ?h' [Resume 0]) =
       Some (Some (Inl ''Generation failed after 2 attempts: connect ECONNREFUSED''))"
    using c4 by (simp_all only: g(6) two) simp_all
  show ?thesis
    using e(1,2,4,5) f(1,2,3,4,7) g(1,2,3,6) c1 c2' c3' c4' by simp
qed

text \<open>
  The claim as stated fails. The backend fails once and then succeeds, so the generation is
  fulfilled with \<open>ok\<close>; but the cache write of the call is refused, and the call ends with
  that error instead of returning the response. And the timer set after attempt 22 is not
  one of \<open>2 ^ 22\<close> seconds: it fires after a millisecond.
\<close>

theorem generate_throws_after_success_counterexample:
  "all_enabled sample_broker sample_unsaved
   \<and> maxRetries sample_broker = 3
   \<and> replies_to 0 sample_unsaved = [Rejected ''socket hang up'', Resolved ''ok'']
   \<and> settlement (exec sample_broker sample_unsaved) 0 = Some (Inr ''ok'')
   \<and> ending (exec sample_broker sample_unsaved) 0 = Some (Inl ''READONLY'')
   \<and> delay (backoff_ms 22) = 1"
  by (simp add: broker_eval)
section \<open>Properties of the envelope protocol\<close>

lemma show_nat_nonempty: "show_nat n \<noteq> []"
  by (subst show_nat.simps) simp

lemma validate_rejects_non_objects:
  "\<not> typeof_object v \<Longrightarrow> \<not> validate v"
  by (simp add: validate_def)

lemma validate_rejects_missing:
  "name \<in> {''id'', ''type'', ''method''} \<Longrightarrow> js_prop v name = JUndefined \<Longrightarrow> \<not> validate v"
  by (auto simp add: validate_def)

lemma validate_rejects_other_types:
  "\<not> includes_str message_types (js_prop v ''type'') \<Longrightarrow> \<not> validate v"
  by (simp add: validate_def)

lemma validate_createRequest:
  "validate (createRequest method params now) \<longleftrightarrow> method \<noteq> []"
  by (simp add: validate_def createRequest_def message_types_def show_nat_nonempty)

lemma validate_createNotification:
  "validate (createNotification method params now) \<longleftrightarrow> method \<noteq> []"
  by (simp add: validate_def createNotification_def message_types_def show_nat_nonempty)

section \<open>Claims about the envelope protocol\<close>

text \<open>
  C4. \<open>validate\<close> does reject \<open>null\<close>, non-objects, objects without \<open>id\<close>, \<open>type\<close> or
  \<open>method\<close>, and objects of another type. But the check on \<open>method\<close> is a truthiness check,
  and \<open>createResponse\<close> builds its envelope with the empty string as \<open>method\<close>: no response
  made by the protocol's own factory passes the protocol's own validation.
\<close>

theorem validate_rejects_createResponse:
  "validate (createResponse requestId result now) = False"
  by (simp add: validate_def createResponse_def)

theorem validate_rejects_createResponse_witness:
  "validate (createResponse ''req-1'' (JObj [(''ok'', JBool True)]) 1700000000000) = False"
  using validate_rejects_createResponse [of "''req-1''" "JObj [(''ok'', JBool True)]" 1700000000000]
  by simp
section \<open>Claims about the request handler\<close>



section \<open>Claims about the session listing\<close>

lemma all_resolved_Inr:
  "(\<And>x. x \<in> set xs \<Longrightarrow> f x = Inr (g x)) \<Longrightarrow> all_resolved (map f xs) = Inr (map g xs)"
  by (induction xs) auto

lemma all_resolved_Inl:
  "x \<in> set xs \<Longrightarrow> f x = Inl e \<Longrightarrow> \<exists>e'. all_resolved (map f xs) = Inl e'"
proof (induction xs)
  case Nil
  then show ?case by simp
next
  case (Cons y ys)
  show ?case
  proof (cases "f y")
    case (Inl e0)
    then show ?thesis by simp
  next
    case (Inr v)
    then have "x \<in> set ys" using Cons.prems by auto
    then obtain e' where "all_resolved (map f ys) = Inl e'"
      using Cons.IH Cons.prems(2) by blast
    then show ?thesis using Inr by simp
  qed
qed

text \<open>
  C9, as the code has it. When the keys are listed and every key either has no value any
  more or has a value that parses, the route answers with the parsed values in key order,
  the keys without a value (and values that parse to \<open>null\<close>) being skipped. A value that
  does not parse is not skipped: the route fails as a whole.
\<close>

theorem get_sessions_skips_missing_only:
  "redis_keys = Resolved keys \<longrightarrow>
     ((\<forall>key \<in> set keys. redis_get key = Resolved None \<or>
          (\<exists>data v. redis_get key = Resolved (Some data) \<and> data \<noteq> [] \<and> JSON_parse data = Resolved v))
        \<longrightarrow> get_sessions JSON_parse redis_keys redis_get =
             Inr (filter (\<lambda>session. session \<noteq> JNull)
                    (map (\<lambda>key. case redis_get key of
                                  Resolved (Some data) \<Rightarrow>
                                    (case JSON_parse data of Resolved v \<Rightarrow> v | Rejected _ \<Rightarrow> JNull)
                                | _ \<Rightarrow> JNull) keys)))
     \<and> (key \<in> set keys \<and> redis_get key = Resolved (Some data) \<and> data \<noteq> [] \<and>
          JSON_parse data = Rejected e
        \<longrightarrow> (\<exists>e'. get_sessions JSON_parse redis_keys redis_get = Inl e'))"
proof (intro impI conjI)
  assume k: "redis_keys = Resolved keys"
  assume ok: "\<forall>key \<in> set keys. redis_get key = Resolved None \<or>
          (\<exists>data v. redis_get key = Resolved (Some data) \<and> data \<noteq> [] \<and> JSON_parse data = Resolved v)"
  let ?g = "\<lambda>key. case redis_get key of
                                  Resolved (Some data) \<Rightarrow>
                                    (case JSON_parse data of Resolved v \<Rightarrow> v | Rejected _ \<Rightarrow> JNull)
                                | _ \<Rightarrow> JNull"
  have "all_resolved (map (read_session JSON_parse redis_get) keys) = Inr (map ?g keys)"
  proof (rule all_resolved_Inr)
    fix x assume "x \<in> set keys"
    then show "read_session JSON_parse redis_get x = Inr (?g x)"
      using ok by (auto simp add: read_session_def)
  qed
  then show "get_sessions JSON_parse redis_keys redis_get =
      Inr (filter (\<lambda>session. session \<noteq> JNull) (map ?g keys))"
    using k by (simp add: get_sessions_def)
next
  assume k: "redis_keys = Resolved keys"
  assume bad: "key \<in> set keys \<and> redis_get key = Resolved (Some data) \<and> data \<noteq> [] \<and>
          JSON_parse data = Rejected e"
  then have "read_session JSON_parse redis_get key = Inl e"
    by (simp add: read_session_def)
  then obtain e' where "all_resolved (map (read_session JSON_parse redis_get) keys) = Inl e'"
    using bad all_resolved_Inl [of key keys "read_session JSON_parse redis_get" e] by blast
  then show "\<exists>e'. get_sessions JSON_parse redis_keys redis_get = Inl e'"
    using k by (simp add: get_sessions_def)
qed

theorem get_sessions_skips_missing_only_witness:
  "sample_store ''session:a'' = Resolved (Some ''{}'') \<and> sample_parse ''{}'' = Resolved (JObj [])
   \<and> sample_store ''session:b'' = Resolved None
   \<and> get_sessions sample_parse (Resolved [''session:a'', ''session:b'']) sample_store = Inr [JObj []]
   \<and> ''session:c'' \<in> set [''session:a'', ''session:c'']
   \<and> sample_store ''session:c'' = Resolved (Some ''{'') \<and> ''{'' \<noteq> []
   \<and> sample_parse ''{'' = Rejected ''Unexpected end of JSON input''
   \<and> (\<exists>e'. get_sessions sample_parse (Resolved [''session:a'', ''session:c'']) sample_store = Inl e')"
proof -
  have h1: "\<forall>key \<in> set [''session:a'', ''session:b''].
       sample_store key = Resolved None \<or>
       (\<exists>data v. sample_store key = Resolved (Some data) \<and> data \<noteq> [] \<and> sample_parse data = Resolved v)"
    by (simp add: sample_store_def sample_parse_def)
  have h2: "''session:c'' \<in> set [''session:a'', ''session:c'']
     \<and> sample_store ''session:c'' = Resolved (Some ''{'') \<and> ''{'' \<noteq> []
     \<and> sample_parse ''{'' = Rejected ''Unexpected end of JSON input''"
    by (simp add: sample_store_def sample_parse_def)
  note ok = get_sessions_skips_missing_only
    [of "Resolved [''session:a'', ''session:b'']" "[''session:a'', ''session:b'']" sample_store sample_parse]
  note bad = get_sessions_skips_missing_only
    [of "Resolved [''session:a'', ''session:c'']" "[''session:a'', ''session:c'']" sample_store sample_parse
        "''session:c''" "''{''" "''Unexpected end of JSON input''"]
  from ok h1 have "get_sessions sample_parse (Resolved [''session:a'', ''session:b'']) sample_store =
      Inr (filter (\<lambda>session. session \<noteq> JNull)
                    (map (\<lambda>key. case sample_store key of
                                  Resolved (Some data) \<Rightarrow>
                                    (case sample_parse data of Resolved v \<Rightarrow> v | Rejected _ \<Rightarrow> JNull)
                                | _ \<Rightarrow> JNull) [''session:a'', ''session:b'']))"
    by blast
  then have c1: "get_sessions sample_parse (Resolved [''session:a'', ''session:b'']) sample_store = Inr [JObj []]"
    by (simp add: sample_store_def sample_parse_def)
  from bad h2 have c2:
    "\<exists>e'. get_sessions sample_parse (Resolved [''session:a'', ''session:c'']) sample_store = Inl e'"
    by blast
  have h3: "sample_store ''session:a'' = Resolved (Some ''{}'') \<and> sample_parse ''{}'' = Resolved (JObj [])
     \<and> sample_store ''session:b'' = Resolved None"
    by (simp add: sample_store_def sample_parse_def)
  show ?thesis using h2 h3 c1 c2 by blast
qed

text \<open>
  The claim as stated fails: with one good session and one value that does not parse in
  the store, the listing is not the good session; the route throws.
\<close>

theorem get_sessions_unparsable_counterexample:
  "get_sessions sample_parse (Resolved [''session:a'', ''session:c'']) sample_store =
     Inl ''Unexpected end of JSON input''"
  by (simp add: get_sessions_def read_session_def sample_store_def sample_parse_def)

end
